theory Spec2Isabelle
  imports Main
begin

section \<open>Data model (src/types.ts)\<close>

text \<open>
  The types of \<^verbatim>\<open>src/types.ts\<close>. JavaScript strings are modelled as \<^typ>\<open>string\<close>
  (lists of 8-bit characters), so the model covers Latin-1 text. A
  \<^verbatim>\<open>Record<string, string>\<close> is a plain object: a map holds its own properties, and
  reading and assigning a property go through \<open>readProperty\<close> and \<open>assignProperty\<close> below,
  which account for what the object inherits from \<^verbatim>\<open>Object.prototype\<close>.
  Of React Flow's \<^verbatim>\<open>Node\<close> and \<^verbatim>\<open>Edge\<close> only the fields read by the store's
  algorithms are kept (\<^verbatim>\<open>id\<close>, \<^verbatim>\<open>data\<close>, \<^verbatim>\<open>source\<close>, \<^verbatim>\<open>target\<close>);
  the renderer's tag, position and selection are presentation data that no function below reads.
\<close>

datatype BlockType = BaseUrl | Resource | Method | Request

datatype HttpMethod = GET | POST | PUT | DELETE | PATCH

record BodyField =
  field_key :: string
  field_value :: string

type_synonym HeaderField = BodyField

record BlockData =
  block_type :: BlockType
  block_value :: string
  block_method :: "HttpMethod option"
  block_isParam :: "bool option"
  block_paramValue :: "string option"
  bodyFields :: "BodyField list option"
  headers :: "HeaderField list option"
  bearerToken :: "string option"

record ApiBlock =
  node_id :: string
  data :: BlockData

record Edge =
  edge_id :: string
  source :: string
  target :: string

section \<open>Path resolution (computeActivePathNodes)\<close>

text \<open>
  \<^verbatim>\<open>traceBackwards\<close> of \<^verbatim>\<open>computeActivePathNodes\<close>. The closure mutates the set
  \<^verbatim>\<open>visitedNodes\<close> and the array \<^verbatim>\<open>pathNodeIds\<close>; the model threads both through
  and returns them with the boolean result. \<^verbatim>\<open>unshift\<close> is \<open>#\<close>, \<^verbatim>\<open>shift\<close> is
  \<^const>\<open>tl\<close>. The \<^verbatim>\<open>for\<close> loop over the incoming edges is \<open>traceIncoming\<close>.
\<close>

function (domintros) traceBackwards ::
    "ApiBlock list \<Rightarrow> Edge list \<Rightarrow> string \<Rightarrow> string set \<times> string list
      \<Rightarrow> bool \<times> string set \<times> string list"
  and traceIncoming ::
    "ApiBlock list \<Rightarrow> Edge list \<Rightarrow> Edge list \<Rightarrow> string set \<times> string list
      \<Rightarrow> bool \<times> string set \<times> string list"
where
  "traceBackwards nodes edges nodeId st =
     (if nodeId \<in> fst st then (False, st)
      else
        let visitedNodes = insert nodeId (fst st) in
        case find (\<lambda>n. node_id n = nodeId) nodes of
          None \<Rightarrow> (False, visitedNodes, snd st)
        | Some node \<Rightarrow>
            let pathNodeIds = nodeId # snd st in
            if block_type (data node) = BaseUrl then (True, visitedNodes, pathNodeIds)
            else
              let r = traceIncoming nodes edges
                        (filter (\<lambda>e. target e = nodeId) edges) (visitedNodes, pathNodeIds)
              in if fst r then r
                 else (False, fst (snd r), tl (snd (snd r))))"
| "traceIncoming nodes edges [] st = (False, st)"
| "traceIncoming nodes edges (edge # rest) st =
     (let r = traceBackwards nodes edges (source edge) st
      in if fst r then r else traceIncoming nodes edges rest (snd r))"
  by pat_completeness auto

lemma find_Some_id:
  "find (\<lambda>n. node_id n = i) ns = Some node \<Longrightarrow> i \<in> node_id ` set ns"
  by (auto simp: find_Some_iff)

lemma card_unvisited_less:
  "finite A \<Longrightarrow> n \<in> A \<Longrightarrow> n \<notin> V \<Longrightarrow> card (A - insert n V) < card (A - V)"
proof -
  assume a: "finite A" "n \<in> A" "n \<notin> V"
  have "A - insert n V = (A - V) - {n}" by auto
  moreover have "n \<in> A - V" using a by simp
  moreover have "finite (A - V)" using a by simp
  ultimately show ?thesis using card_Diff1_less[of "A - V" n] by simp
qed

lemma card_unvisited_le:
  "finite A \<Longrightarrow> V \<subseteq> V' \<Longrightarrow> card (A - V') \<le> card (A - V)"
  by (rule card_mono) auto

lemma trace_visited_mono_dom:
  "traceBackwards_traceIncoming_dom (Inl (nodes, edges, nodeId, st))
     \<Longrightarrow> fst st \<subseteq> fst (snd (traceBackwards nodes edges nodeId st))"
  "traceBackwards_traceIncoming_dom (Inr (nodes, edges, es, st))
     \<Longrightarrow> fst st \<subseteq> fst (snd (traceIncoming nodes edges es st))"
proof (induct rule: traceBackwards_traceIncoming.pinduct)
  case (1 nodes edges nodeId st)
  then show ?case
    by (auto simp: traceBackwards.psimps Let_def split: option.splits)
next
  case (2 nodes edges st)
  then show ?case by (simp add: traceIncoming.psimps)
next
  case (3 nodes edges edge rest st)
  then show ?case
    by (auto simp: traceIncoming.psimps Let_def)
qed

termination traceBackwards
proof (relation "inv_image (less_than <*lex*> less_than)
    (\<lambda>x. case x of
       Inl (nodes, edges, nodeId, st) \<Rightarrow> (card (node_id ` set nodes - fst st), 0)
     | Inr (nodes, edges, es, st) \<Rightarrow> (card (node_id ` set nodes - fst st), Suc (length es)))",
    goal_cases)
  case 1
  then show ?case by auto
next
  case (2 nodes edges nodeId st x2 xa xb)
  have "card (node_id ` set nodes - insert nodeId (fst st)) < card (node_id ` set nodes - fst st)"
    using 2 by (intro card_unvisited_less find_Some_id) auto
  with 2 show ?case by simp
next
  case (3 nodes edges edge rest st)
  then show ?case by simp
next
  case (4 nodes edges edge rest st x)
  have "card (node_id ` set nodes - fst (snd (traceBackwards nodes edges (source edge) st)))
        \<le> card (node_id ` set nodes - fst st)"
    using 4 trace_visited_mono_dom(1)[of nodes edges "source edge" st]
    by (intro card_unvisited_le) auto
  with 4 show ?case by auto
qed

text \<open>
  With termination proved, every argument is in the domain of the recursion.
\<close>

lemma traceBackwards_total:
  "traceBackwards_traceIncoming_dom (Inl (ns, es, n, st))"
  "traceBackwards_traceIncoming_dom (Inr (ns, es, inc, st))"
proof (induction ns es n st and ns es inc st
        rule: traceBackwards_traceIncoming.induct)
  case (1 nodes edges nodeId st)
  show ?case by (rule traceBackwards_traceIncoming.domintros(1)) (simp add: 1)
next
  case (2 nodes edges st)
  show ?case by (rule traceBackwards_traceIncoming.domintros(2))
next
  case (3 nodes edges edge rest st)
  show ?case by (rule traceBackwards_traceIncoming.domintros(3)) (simp_all add: 3)
qed

declare traceBackwards.simps [simp del]

text \<open>
  \<^verbatim>\<open>computeActivePathNodes\<close>: \<^verbatim>\<open>!activePathId\<close> holds for \<^verbatim>\<open>null\<close> and for the
  empty string.
\<close>

definition computeActivePathNodes ::
    "string option \<Rightarrow> ApiBlock list \<Rightarrow> Edge list \<Rightarrow> string list" where
  "computeActivePathNodes activePathId nodes edges =
     (case activePathId of
        None \<Rightarrow> []
      | Some t \<Rightarrow>
          if t = [] then []
          else snd (snd (traceBackwards nodes edges t ({}, []))))"

section \<open>Parameter substitution and URL composition (getComputedUrl)\<close>

text \<open>
  \<^verbatim>\<open>\w\<close> is \<^verbatim>\<open>[A-Za-z0-9_]\<close>; \<^verbatim>\<open>.\<close> is any character but a line terminator
  (of which Latin-1 has line feed and carriage return).
\<close>

definition isWordChar :: "char \<Rightarrow> bool" where
  "isWordChar c =
     (c \<in> set ''abcdefghijklmnopqrstuvwxyzABCDEFGHIJKLMNOPQRSTUVWXYZ0123456789_'')"

definition isLineTerminator :: "char \<Rightarrow> bool" where
  "isLineTerminator c = (c = CHR 0x0A \<or> c = CHR 0x0D)"

text \<open>
  \<^verbatim>\<open>/\{(.+)\}/.test(value)\<close>: some \<^verbatim>\<open>{\<close> is followed, on the same line, by at least one
  character and then a \<^verbatim>\<open>}\<close>.
\<close>

fun isParam :: "string \<Rightarrow> bool" where
  "isParam [] = False"
| "isParam (c # cs) =
     ((c = CHR ''{'' \<and> CHR ''}'' \<in> set (tl (takeWhile (\<lambda>d. \<not> isLineTerminator d) cs)))
      \<or> isParam cs)"

text \<open>
  The members of \<^verbatim>\<open>Object.prototype\<close>, which every plain object inherits: the
  constructor, ten methods and the accessor \<^verbatim>\<open>__proto__\<close>. Each is given with the text
  that the conversion to a string makes of its value (\<^verbatim>\<open>replace\<close> converts what the
  replacer returns). The values are functions, and for \<^verbatim>\<open>__proto__\<close> the prototype object
  itself, so all are truthy. The text of a native function is the one V8 prints; other engines
  differ in its white space only.
\<close>

definition inheritedText :: "string \<Rightarrow> string option" where
  "inheritedText key =
     (if key = ''__proto__'' then Some ''[object Object]''
      else if key = ''constructor'' then Some ''function Object() { [native code] }''
      else if key \<in> set [''__defineGetter__'', ''__defineSetter__'', ''hasOwnProperty'',
                           ''__lookupGetter__'', ''__lookupSetter__'', ''isPrototypeOf'',
                           ''propertyIsEnumerable'', ''toString'', ''valueOf'',
                           ''toLocaleString'']
      then Some (''function '' @ key @ ''() { [native code] }'')
      else None)"

text \<open>
  \<^verbatim>\<open>obj[key]\<close> on a plain object whose own properties are strings: the own property when
  there is one, otherwise the inherited member, otherwise \<^verbatim>\<open>undefined\<close>.
\<close>

definition readProperty :: "(string \<rightharpoonup> string) \<Rightarrow> string \<Rightarrow> string option" where
  "readProperty obj key =
     (case obj key of
        Some v \<Rightarrow> Some v
      | None \<Rightarrow> inheritedText key)"

text \<open>
  The replacer \<^verbatim>\<open>(_, key) => variables[key] || `{${key}}`\<close>: a name that reads as
  \<^verbatim>\<open>undefined\<close> and a name bound to the empty string both give the placeholder back; an
  inherited member is truthy and gives its text.
\<close>

definition paramReplacement :: "(string \<rightharpoonup> string) \<Rightarrow> string \<Rightarrow> string" where
  "paramReplacement variables key =
     (case readProperty variables key of
        None \<Rightarrow> ''{'' @ key @ ''}''
      | Some v \<Rightarrow> if v = [] then ''{'' @ key @ ''}'' else v)"

text \<open>
  \<^verbatim>\<open>value.replace(/\{(\w+)\}/g, ...)\<close>: a left-to-right scan. At a \<^verbatim>\<open>{\<close> followed by a
  non-empty greedy run of word characters and a \<^verbatim>\<open>}\<close> the match is replaced and the scan
  goes on after it; anywhere else one character is copied.
\<close>

function replaceParams :: "(string \<rightharpoonup> string) \<Rightarrow> string \<Rightarrow> string" where
  "replaceParams variables [] = []"
| "replaceParams variables (c # cs) =
     (let key = takeWhile isWordChar cs; rest = dropWhile isWordChar cs
      in if c = CHR ''{'' \<and> key \<noteq> [] \<and> rest \<noteq> [] \<and> hd rest = CHR ''}''
         then paramReplacement variables key @ replaceParams variables (tl rest)
         else c # replaceParams variables cs)"
  by pat_completeness auto

termination
proof (relation "measure (\<lambda>(variables, s). length s)", goal_cases)
  case 1
  then show ?case by simp
next
  case (2 variables c cs key rest)
  have "length (tl (dropWhile isWordChar cs)) \<le> length cs"
    using length_dropWhile_le[of isWordChar cs] by simp
  with 2 show ?case by simp
next
  case (3 variables c cs key rest)
  then show ?case by simp
qed

text \<open>The value a resource node contributes (lines 378 to 385 of the store).\<close>

definition substituteParams :: "(string \<rightharpoonup> string) \<Rightarrow> string \<Rightarrow> string" where
  "substituteParams variables v = (if isParam v then replaceParams variables v else v)"

text \<open>
  \<^verbatim>\<open>traceBackwards\<close> of \<^verbatim>\<open>getComputedUrl\<close>. It collects segment values instead of
  ids: a base URL node puts its value in front and succeeds, a resource node puts its
  substituted value in front, any other node adds nothing. Unlike the resolver above it has no
  \<^verbatim>\<open>shift\<close> before \<^verbatim>\<open>return false\<close>.
\<close>

function (domintros) traceBackwardsUrl ::
    "ApiBlock list \<Rightarrow> Edge list \<Rightarrow> (string \<rightharpoonup> string) \<Rightarrow> string
      \<Rightarrow> string set \<times> string list \<Rightarrow> bool \<times> string set \<times> string list"
  and traceIncomingUrl ::
    "ApiBlock list \<Rightarrow> Edge list \<Rightarrow> (string \<rightharpoonup> string) \<Rightarrow> Edge list
      \<Rightarrow> string set \<times> string list \<Rightarrow> bool \<times> string set \<times> string list"
where
  "traceBackwardsUrl nodes edges variables nodeId st =
     (if nodeId \<in> fst st then (False, st)
      else
        let visitedNodes = insert nodeId (fst st) in
        case find (\<lambda>n. node_id n = nodeId) nodes of
          None \<Rightarrow> (False, visitedNodes, snd st)
        | Some node \<Rightarrow>
            if block_type (data node) = BaseUrl
            then (True, visitedNodes, block_value (data node) # snd st)
            else
              let path =
                (if block_type (data node) = Resource
                 then substituteParams variables (block_value (data node)) # snd st
                 else snd st)
              in traceIncomingUrl nodes edges variables
                   (filter (\<lambda>e. target e = nodeId) edges) (visitedNodes, path))"
| "traceIncomingUrl nodes edges variables [] st = (False, st)"
| "traceIncomingUrl nodes edges variables (edge # rest) st =
     (let r = traceBackwardsUrl nodes edges variables (source edge) st
      in if fst r then r else traceIncomingUrl nodes edges variables rest (snd r))"
  by pat_completeness auto

lemma traceUrl_visited_mono_dom:
  "traceBackwardsUrl_traceIncomingUrl_dom (Inl (ns, es, vars, nodeId, st))
     \<Longrightarrow> fst st \<subseteq> fst (snd (traceBackwardsUrl ns es vars nodeId st))"
  "traceBackwardsUrl_traceIncomingUrl_dom (Inr (ns, es, vars, inc, st))
     \<Longrightarrow> fst st \<subseteq> fst (snd (traceIncomingUrl ns es vars inc st))"
proof (induct rule: traceBackwardsUrl_traceIncomingUrl.pinduct)
  case (1 nodes edges variables nodeId st)
  then show ?case
    by (auto simp: traceBackwardsUrl.psimps Let_def split: option.splits)
next
  case (2 nodes edges variables st)
  then show ?case by (simp add: traceIncomingUrl.psimps)
next
  case (3 nodes edges variables edge rest st)
  then show ?case
    by (auto simp: traceIncomingUrl.psimps Let_def)
qed

termination traceBackwardsUrl
proof (relation "inv_image (less_than <*lex*> less_than)
    (\<lambda>x. case x of
       Inl (nodes, edges, variables, nodeId, st) \<Rightarrow> (card (node_id ` set nodes - fst st), 0)
     | Inr (nodes, edges, variables, es, st) \<Rightarrow>
         (card (node_id ` set nodes - fst st), Suc (length es)))",
    goal_cases)
  case 1
  then show ?case by auto
next
  case (2 nodes edges variables nodeId st x2 xa xb)
  have "card (node_id ` set nodes - insert nodeId (fst st)) < card (node_id ` set nodes - fst st)"
    using 2 by (intro card_unvisited_less find_Some_id) auto
  with 2 show ?case by simp
next
  case (3 nodes edges variables edge rest st)
  then show ?case by simp
next
  case (4 nodes edges variables edge rest st x)
  have "card (node_id ` set nodes
              - fst (snd (traceBackwardsUrl nodes edges variables (source edge) st)))
        \<le> card (node_id ` set nodes - fst st)"
    using 4 traceUrl_visited_mono_dom(1)[of nodes edges variables "source edge" st]
    by (intro card_unvisited_le) auto
  with 4 show ?case by auto
qed

lemma traceBackwardsUrl_total:
  "traceBackwardsUrl_traceIncomingUrl_dom (Inl (ns, es, vars, n, st))"
  "traceBackwardsUrl_traceIncomingUrl_dom (Inr (ns, es, vars, inc, st))"
proof (induction ns es vars n st and ns es vars inc st
        rule: traceBackwardsUrl_traceIncomingUrl.induct)
  case (1 nodes edges variables nodeId st)
  show ?case
    by (rule traceBackwardsUrl_traceIncomingUrl.domintros(1))
       (use 1[OF _ refl _ _ refl] in force)+
next
  case (2 nodes edges variables st)
  show ?case by (rule traceBackwardsUrl_traceIncomingUrl.domintros(2))
next
  case (3 nodes edges variables edge rest st)
  show ?case by (rule traceBackwardsUrl_traceIncomingUrl.domintros(3)) (simp_all add: 3)
qed

declare traceBackwardsUrl.simps [simp del]

text \<open>\<^verbatim>\<open>path.join('/')\<close>.\<close>

fun joinSlash :: "string list \<Rightarrow> string" where
  "joinSlash [] = []"
| "joinSlash [s] = s"
| "joinSlash (s # t # ss) = s @ ''/'' @ joinSlash (t # ss)"

text \<open>
  \<^verbatim>\<open>.replace(/([^:]\/)\/+/g, '$1')\<close>: a left-to-right scan. A character other than a
  colon, then a slash, then a greedy non-empty run of slashes is replaced by its first two
  characters and the scan goes on after the run; anywhere else one character is copied.
\<close>

function collapseSlashes :: "string \<Rightarrow> string" where
  "collapseSlashes [] = []"
| "collapseSlashes [c] = [c]"
| "collapseSlashes (c # d # cs) =
     (if c \<noteq> CHR '':'' \<and> d = CHR ''/'' \<and> cs \<noteq> [] \<and> hd cs = CHR ''/''
      then c # d # collapseSlashes (dropWhile (\<lambda>x. x = CHR ''/'') cs)
      else c # collapseSlashes (d # cs))"
  by pat_completeness auto

termination
proof (relation "measure length", goal_cases)
  case 1
  then show ?case by simp
next
  case (2 c d cs)
  have "length (dropWhile (\<lambda>x. x = CHR ''/'') cs) \<le> length cs"
    by (rule length_dropWhile_le)
  then show ?case by simp
next
  case (3 c d cs)
  then show ?case by simp
qed

section \<open>The canvas store (src/store/useCanvasStore.ts)\<close>

text \<open>
  The payload \<^verbatim>\<open>data: any\<close> of a response is opaque text here. Ids from
  \<^verbatim>\<open>nanoid()\<close> and times from \<^verbatim>\<open>Date.now()\<close> come from the environment: each
  operation takes them as arguments.
\<close>

record RequestState =
  req_url :: string
  req_method :: HttpMethod
  req_headers :: "string \<rightharpoonup> string"
  req_body :: string

record ResponseState =
  status :: int
  statusText :: string
  resp_data :: string
  resp_headers :: "string \<rightharpoonup> string"
  resp_time :: int
  resp_size :: nat

record HistoryItem = ResponseState +
  hist_id :: string
  hist_url :: string
  hist_method :: HttpMethod
  hist_timestamp :: int

record RequestBodyHistoryItem =
  bh_id :: string
  bh_method :: HttpMethod
  bh_url :: string
  bh_bodyFields :: "BodyField list"
  bh_timestamp :: int

record CanvasState =
  nodes :: "ApiBlock list"
  edges :: "Edge list"
  activePathId :: "string option"
  activePathNodes :: "string list"
  request :: "RequestState option"
  response :: "ResponseState option"
  history :: "HistoryItem list"
  bodyHistory :: "RequestBodyHistoryItem list"
  variables :: "string \<rightharpoonup> string"

text \<open>
  The functions imported from React Flow are not code of this repository: the store is
  modelled for any three functions of their types. \<open>addEdge\<close> gets the connection and the
  fresh edge id.
\<close>

record ('nc, 'ec, 'conn) ReactFlow =
  applyNodeChanges :: "'nc \<Rightarrow> ApiBlock list \<Rightarrow> ApiBlock list"
  applyEdgeChanges :: "'ec \<Rightarrow> Edge list \<Rightarrow> Edge list"
  addEdge :: "'conn \<Rightarrow> string \<Rightarrow> Edge list \<Rightarrow> Edge list"

definition mkBlock :: "BlockType \<Rightarrow> string \<Rightarrow> HttpMethod option \<Rightarrow> BlockData" where
  "mkBlock t v m =
     \<lparr>block_type = t, block_value = v, block_method = m, block_isParam = None,
      block_paramValue = None, bodyFields = None, headers = None, bearerToken = None\<rparr>"

definition createDefaultState :: CanvasState where
  "createDefaultState =
     \<lparr>nodes =
        [\<lparr>node_id = ''default-base-url'',
          data = mkBlock BaseUrl ''http://localhost:3000'' None\<rparr>,
         \<lparr>node_id = ''default-health-resource'', data = mkBlock Resource ''health'' None\<rparr>,
         \<lparr>node_id = ''default-health-method'', data = mkBlock Method [] (Some GET)\<rparr>,
         \<lparr>node_id = ''default-auth-resource'', data = mkBlock Resource ''auth'' None\<rparr>,
         \<lparr>node_id = ''default-login-resource'', data = mkBlock Resource ''login'' None\<rparr>,
         \<lparr>node_id = ''default-login-method'',
          data = (mkBlock Method [] (Some POST))
            \<lparr>bodyFields := Some [\<lparr>field_key = ''email'', field_value = []\<rparr>,
                                 \<lparr>field_key = ''password'', field_value = []\<rparr>]\<rparr>\<rparr>],
      edges =
        [\<lparr>edge_id = ''edge-base-health'', source = ''default-base-url'',
          target = ''default-health-resource''\<rparr>,
         \<lparr>edge_id = ''edge-health-get'', source = ''default-health-resource'',
          target = ''default-health-method''\<rparr>,
         \<lparr>edge_id = ''edge-base-auth'', source = ''default-base-url'',
          target = ''default-auth-resource''\<rparr>,
         \<lparr>edge_id = ''edge-auth-login'', source = ''default-auth-resource'',
          target = ''default-login-resource''\<rparr>,
         \<lparr>edge_id = ''edge-login-post'', source = ''default-login-resource'',
          target = ''default-login-method''\<rparr>],
      activePathId = None,
      activePathNodes = [],
      request = None,
      response = None,
      history = [],
      bodyHistory = [],
      variables = Map.empty\<rparr>"

definition addNode ::
    "string \<Rightarrow> BlockType \<Rightarrow> string \<Rightarrow> HttpMethod option \<Rightarrow> CanvasState \<Rightarrow> CanvasState" where
  "addNode newId t v m s =
     s\<lparr>nodes := nodes s @ [\<lparr>node_id = newId, data = mkBlock t v m\<rparr>]\<rparr>"

definition onNodesChange ::
    "('nc, 'ec, 'conn) ReactFlow \<Rightarrow> 'nc \<Rightarrow> CanvasState \<Rightarrow> CanvasState" where
  "onNodesChange rf changes s =
     (let newNodes = applyNodeChanges rf changes (nodes s);
          newActivePathNodes = computeActivePathNodes (activePathId s) newNodes (edges s)
      in s\<lparr>nodes := newNodes, activePathNodes := newActivePathNodes\<rparr>)"

definition onEdgesChange ::
    "('nc, 'ec, 'conn) ReactFlow \<Rightarrow> 'ec \<Rightarrow> CanvasState \<Rightarrow> CanvasState" where
  "onEdgesChange rf changes s =
     (let newEdges = applyEdgeChanges rf changes (edges s);
          newActivePathNodes = computeActivePathNodes (activePathId s) (nodes s) newEdges
      in s\<lparr>edges := newEdges, activePathNodes := newActivePathNodes\<rparr>)"

definition onConnect ::
    "('nc, 'ec, 'conn) ReactFlow \<Rightarrow> 'conn \<Rightarrow> string \<Rightarrow> CanvasState \<Rightarrow> CanvasState" where
  "onConnect rf connection newId s =
     (let newEdges = addEdge rf connection newId (edges s);
          newActivePathNodes = computeActivePathNodes (activePathId s) (nodes s) newEdges
      in s\<lparr>edges := newEdges, activePathNodes := newActivePathNodes\<rparr>)"

definition updateNodeValue :: "string \<Rightarrow> string \<Rightarrow> CanvasState \<Rightarrow> CanvasState" where
  "updateNodeValue i v s =
     s\<lparr>nodes := map (\<lambda>node. if node_id node = i
                               then node\<lparr>data := (data node)\<lparr>block_value := v\<rparr>\<rparr>
                               else node) (nodes s)\<rparr>"

definition updateNodeBodyFields ::
    "string \<Rightarrow> BodyField list \<Rightarrow> CanvasState \<Rightarrow> CanvasState" where
  "updateNodeBodyFields i fs s =
     s\<lparr>nodes := map (\<lambda>node. if node_id node = i
                               then node\<lparr>data := (data node)\<lparr>bodyFields := Some fs\<rparr>\<rparr>
                               else node) (nodes s)\<rparr>"

definition updateNodeHeaders ::
    "string \<Rightarrow> HeaderField list \<Rightarrow> CanvasState \<Rightarrow> CanvasState" where
  "updateNodeHeaders i hs s =
     s\<lparr>nodes := map (\<lambda>node. if node_id node = i
                               then node\<lparr>data := (data node)\<lparr>headers := Some hs\<rparr>\<rparr>
                               else node) (nodes s)\<rparr>"

text \<open>
  \<^verbatim>\<open>ensureRequestNode\<close>: nothing happens when the method node already has an edge to a
  request node, or when the id is not the id of a method node.
\<close>

definition ensureRequestNode ::
    "string \<Rightarrow> string \<Rightarrow> string \<Rightarrow> CanvasState \<Rightarrow> CanvasState" where
  "ensureRequestNode methodNodeId newNodeId newEdgeId s =
     (case find (\<lambda>e. source e = methodNodeId \<and>
                     find (\<lambda>n. node_id n = target e \<and> block_type (data n) = Request) (nodes s)
                       \<noteq> None) (edges s) of
        Some existingRequestEdge \<Rightarrow> s
      | None \<Rightarrow>
          (case find (\<lambda>n. node_id n = methodNodeId) (nodes s) of
             None \<Rightarrow> s
           | Some methodNode \<Rightarrow>
               if block_type (data methodNode) \<noteq> Method then s
               else
                 let requestNode =
                       \<lparr>node_id = newNodeId,
                        data = (mkBlock Request [] None)
                          \<lparr>headers := Some [\<lparr>field_key = ''Content-Type'',
                                              field_value = ''application/json''\<rparr>]\<rparr>\<rparr>;
                     newEdge = \<lparr>edge_id = newEdgeId, source = methodNodeId,
                                target = node_id requestNode\<rparr>
                 in s\<lparr>nodes := nodes s @ [requestNode], edges := edges s @ [newEdge]\<rparr>))"

definition setActivePath :: "string option \<Rightarrow> CanvasState \<Rightarrow> CanvasState" where
  "setActivePath nodeId s =
     (let newActivePathNodes = computeActivePathNodes nodeId (nodes s) (edges s)
      in s\<lparr>activePathId := nodeId, activePathNodes := newActivePathNodes\<rparr>)"

text \<open>
  \<^verbatim>\<open>getComputedUrl\<close>: \<^verbatim>\<open>null\<close> is \<^const>\<open>None\<close>.
\<close>

definition getComputedUrl :: "CanvasState \<Rightarrow> string option" where
  "getComputedUrl s =
     (case activePathId s of
        None \<Rightarrow> None
      | Some t \<Rightarrow>
          if t = [] then None
          else
            (case find (\<lambda>n. node_id n = t) (nodes s) of
               None \<Rightarrow> None
             | Some activeNode \<Rightarrow>
                 let r = traceBackwardsUrl (nodes s) (edges s) (variables s) t ({}, []);
                     foundPath = fst r;
                     path = snd (snd r)
                 in if \<not> foundPath \<or> length path = 0 then None
                    else Some (collapseSlashes (joinSlash path))))"

definition setRequest :: "RequestState \<Rightarrow> CanvasState \<Rightarrow> CanvasState" where
  "setRequest r s = s\<lparr>request := Some r\<rparr>"

text \<open>
  \<^verbatim>\<open>setResponse\<close>: \<^verbatim>\<open>url && method\<close> holds when both are given and the url is not the
  empty string (a method is never an empty string).
\<close>

definition setResponse ::
    "ResponseState \<Rightarrow> string option \<Rightarrow> HttpMethod option \<Rightarrow> string \<Rightarrow> int
      \<Rightarrow> CanvasState \<Rightarrow> CanvasState" where
  "setResponse r url m newId now s =
     (case (url, m) of
        (Some u, Some meth) \<Rightarrow>
          if u = [] then s\<lparr>response := Some r\<rparr>
          else
            let historyItem =
                  \<lparr>status = status r, statusText = statusText r, resp_data = resp_data r,
                   resp_headers = resp_headers r, resp_time = resp_time r,
                   resp_size = resp_size r,
                   hist_id = newId, hist_url = u, hist_method = meth, hist_timestamp = now\<rparr>
            in s\<lparr>response := Some r, history := take 10 (historyItem # history s)\<rparr>
      | _ \<Rightarrow> s\<lparr>response := Some r\<rparr>)"

definition clearResponse :: "CanvasState \<Rightarrow> CanvasState" where
  "clearResponse s = s\<lparr>response := None\<rparr>"

definition clearHistory :: "CanvasState \<Rightarrow> CanvasState" where
  "clearHistory s = s\<lparr>history := []\<rparr>"

definition removeHistoryItem :: "string \<Rightarrow> CanvasState \<Rightarrow> CanvasState" where
  "removeHistoryItem i s = s\<lparr>history := filter (\<lambda>item. hist_id item \<noteq> i) (history s)\<rparr>"

definition addBodyHistory ::
    "HttpMethod \<Rightarrow> string \<Rightarrow> BodyField list \<Rightarrow> string \<Rightarrow> int \<Rightarrow> CanvasState \<Rightarrow> CanvasState" where
  "addBodyHistory m url fs newId now s =
     (if length fs = 0 then s
      else
        let historyItem =
              \<lparr>bh_id = newId, bh_method = m, bh_url = url, bh_bodyFields = fs,
               bh_timestamp = now\<rparr>
        in s\<lparr>bodyHistory := take 50 (historyItem # bodyHistory s)\<rparr>)"

definition getBodyHistoryForEndpoint ::
    "HttpMethod \<Rightarrow> string \<Rightarrow> CanvasState \<Rightarrow> RequestBodyHistoryItem list" where
  "getBodyHistoryForEndpoint m url s =
     filter (\<lambda>item. bh_method item = m \<and> bh_url item = url) (bodyHistory s)"

definition removeBodyHistoryItem :: "string \<Rightarrow> CanvasState \<Rightarrow> CanvasState" where
  "removeBodyHistoryItem i s =
     s\<lparr>bodyHistory := filter (\<lambda>item. bh_id item \<noteq> i) (bodyHistory s)\<rparr>"

text \<open>
  \<^verbatim>\<open>{ ...state.variables, [key]: value }\<close>: the spread and the computed key both define
  own properties, also for the key \<^verbatim>\<open>__proto__\<close> (only an assignment reaches the inherited
  setter), so the new table is the map update.
\<close>

definition setVariable :: "string \<Rightarrow> string \<Rightarrow> CanvasState \<Rightarrow> CanvasState" where
  "setVariable k v s = s\<lparr>variables := (variables s)(k \<mapsto> v)\<rparr>"

definition resetToDefault :: "CanvasState \<Rightarrow> CanvasState" where
  "resetToDefault s = createDefaultState"

text \<open>The operations of the store that change its state, and a run of them.\<close>

datatype ('nc, 'ec, 'conn) StoreOp =
    AddNode string BlockType string "HttpMethod option"
  | OnNodesChange 'nc
  | OnEdgesChange 'ec
  | OnConnect 'conn string
  | UpdateNodeValue string string
  | UpdateNodeBodyFields string "BodyField list"
  | UpdateNodeHeaders string "HeaderField list"
  | EnsureRequestNode string string string
  | SetActivePath "string option"
  | SetRequest RequestState
  | SetResponse ResponseState "string option" "HttpMethod option" string int
  | ClearResponse
  | ClearHistory
  | RemoveHistoryItem string
  | AddBodyHistory HttpMethod string "BodyField list" string int
  | RemoveBodyHistoryItem string
  | SetVariable string string
  | ResetToDefault

fun step ::
    "('nc, 'ec, 'conn) ReactFlow \<Rightarrow> ('nc, 'ec, 'conn) StoreOp \<Rightarrow> CanvasState \<Rightarrow> CanvasState" where
  "step rf (AddNode newId t v m) s = addNode newId t v m s"
| "step rf (OnNodesChange changes) s = onNodesChange rf changes s"
| "step rf (OnEdgesChange changes) s = onEdgesChange rf changes s"
| "step rf (OnConnect connection newId) s = onConnect rf connection newId s"
| "step rf (UpdateNodeValue i v) s = updateNodeValue i v s"
| "step rf (UpdateNodeBodyFields i fs) s = updateNodeBodyFields i fs s"
| "step rf (UpdateNodeHeaders i hs) s = updateNodeHeaders i hs s"
| "step rf (EnsureRequestNode methodNodeId newNodeId newEdgeId) s =
     ensureRequestNode methodNodeId newNodeId newEdgeId s"
| "step rf (SetActivePath nodeId) s = setActivePath nodeId s"
| "step rf (SetRequest r) s = setRequest r s"
| "step rf (SetResponse r url m newId now) s = setResponse r url m newId now s"
| "step rf ClearResponse s = clearResponse s"
| "step rf ClearHistory s = clearHistory s"
| "step rf (RemoveHistoryItem i) s = removeHistoryItem i s"
| "step rf (AddBodyHistory m url fs newId now) s = addBodyHistory m url fs newId now s"
| "step rf (RemoveBodyHistoryItem i) s = removeBodyHistoryItem i s"
| "step rf (SetVariable k v) s = setVariable k v s"
| "step rf ResetToDefault s = resetToDefault s"

fun run ::
    "('nc, 'ec, 'conn) ReactFlow \<Rightarrow> ('nc, 'ec, 'conn) StoreOp list \<Rightarrow> CanvasState
      \<Rightarrow> CanvasState" where
  "run rf [] s = s"
| "run rf (op # ops) s = run rf ops (step rf op s)"

section \<open>Request assembly (handleSend of MethodBlock.tsx)\<close>

definition hasBody :: "HttpMethod \<Rightarrow> bool" where
  "hasBody m = (m \<in> set [POST, PUT, PATCH])"

text \<open>
  \<^verbatim>\<open>acc[key] = value\<close> on an object built from an object literal, with a string value.
  The key \<^verbatim>\<open>__proto__\<close> goes to the setter inherited from \<^verbatim>\<open>Object.prototype\<close>, which
  ignores a value that is neither an object nor \<^verbatim>\<open>null\<close>: no property is created. Every
  other key gets an own property (the other inherited members are writable data properties,
  which an assignment shadows).
\<close>

definition assignProperty ::
    "(string \<rightharpoonup> string) \<Rightarrow> string \<Rightarrow> string \<Rightarrow> (string \<rightharpoonup> string)" where
  "assignProperty obj key v = (if key = ''__proto__'' then obj else obj(key \<mapsto> v))"

text \<open>
  The \<^verbatim>\<open>reduce\<close> that builds \<^verbatim>\<open>bodyObj\<close>: a field with a non-empty key is assigned
  under its key, a later field overwriting an earlier one of the same key. The result holds
  the own properties, which are what the request body is serialised from.
\<close>

definition bodyObj :: "BodyField list \<Rightarrow> (string \<rightharpoonup> string)" where
  "bodyObj fs =
     foldl (\<lambda>acc f. if field_key f \<noteq> []
                     then assignProperty acc (field_key f) (field_value f) else acc)
       Map.empty fs"

text \<open>
  \<^verbatim>\<open>config.data\<close> as \<^verbatim>\<open>handleSend\<close> sets it: \<^const>\<open>None\<close> when the property is not
  set. \<^verbatim>\<open>data.method || 'GET'\<close> and \<^verbatim>\<open>data.bodyFields || []\<close> are the defaults
  of the component.
\<close>

definition configData :: "BlockData \<Rightarrow> (string \<rightharpoonup> string) option" where
  "configData d =
     (let m = (case block_method d of None \<Rightarrow> GET | Some x \<Rightarrow> x);
          fs = (case bodyFields d of None \<Rightarrow> [] | Some x \<Rightarrow> x)
      in if hasBody m \<and> length fs > 0 then Some (bodyObj fs) else None)"

section \<open>Notions used to state the properties\<close>

text \<open>
  A base URL node is reachable by the backward walk from an id: the id is the id of a base URL
  node, or of another node that is the target of an edge whose source reaches a base URL node.
  Nodes are looked up as the code does (the first node with the id).
\<close>

inductive reachesBase :: "ApiBlock list \<Rightarrow> Edge list \<Rightarrow> string \<Rightarrow> bool"
  for ns :: "ApiBlock list" and es :: "Edge list" where
  base: "find (\<lambda>n. node_id n = i) ns = Some nd \<Longrightarrow> block_type (data nd) = BaseUrl
           \<Longrightarrow> reachesBase ns es i"
| step: "find (\<lambda>n. node_id n = i) ns = Some nd \<Longrightarrow> block_type (data nd) \<noteq> BaseUrl
           \<Longrightarrow> e \<in> set es \<Longrightarrow> target e = i \<Longrightarrow> reachesBase ns es (source e)
           \<Longrightarrow> reachesBase ns es i"

code_pred reachesBase .

text \<open>
  The stored projection equals the recomputed resolution, as a set of node ids.
\<close>

definition projectionInv :: "CanvasState \<Rightarrow> bool" where
  "projectionInv s =
     (set (activePathNodes s)
        = set (computeActivePathNodes (activePathId s) (nodes s) (edges s)))"

text \<open>
  What the store needs of an id from \<^verbatim>\<open>nanoid()\<close>: it is not the active id and no edge
  starts from it (as holds of an id that does not occur in the state). \<open>opFresh\<close> asks it
  of the node id an operation creates, \<open>runFresh\<close> of every operation of a run at the state
  it starts from.
\<close>

definition freshId :: "CanvasState \<Rightarrow> string \<Rightarrow> bool" where
  "freshId s i = (activePathId s \<noteq> Some i \<and> i \<notin> source ` set (edges s))"

fun opFresh :: "('nc, 'ec, 'conn) StoreOp \<Rightarrow> CanvasState \<Rightarrow> bool" where
  "opFresh (AddNode newId t v m) s = freshId s newId"
| "opFresh (EnsureRequestNode methodNodeId newNodeId newEdgeId) s = freshId s newNodeId"
| "opFresh op s = True"

fun runFresh ::
    "('nc, 'ec, 'conn) ReactFlow \<Rightarrow> ('nc, 'ec, 'conn) StoreOp list \<Rightarrow> CanvasState \<Rightarrow> bool" where
  "runFresh rf [] s = True"
| "runFresh rf (op # ops) s = (opFresh op s \<and> runFresh rf ops (step rf op s))"

text \<open>
  \<open>singleParents es p xs\<close>: the first id of \<open>xs\<close> has exactly one incoming edge, from
  \<open>p\<close>, and every further id has exactly one, from the id before it.
\<close>

fun singleParents :: "Edge list \<Rightarrow> string \<Rightarrow> string list \<Rightarrow> bool" where
  "singleParents es p [] = True"
| "singleParents es p (x # xs) =
     (map source (filter (\<lambda>e. target e = x) es) = [p] \<and> singleParents es x xs)"

text \<open>
  \<open>slashesCollapsed s\<close>: in \<open>s\<close> no character other than a colon is directly followed
  by two slashes.
\<close>

fun slashesCollapsed :: "string \<Rightarrow> bool" where
  "slashesCollapsed (x # d # e # cs) =
     (\<not> (x \<noteq> CHR '':'' \<and> d = CHR ''/'' \<and> e = CHR ''/'') \<and> slashesCollapsed (d # e # cs))"
| "slashesCollapsed cs = True"

section \<open>The URL computation of RequestNode.tsx\<close>

text \<open>
  The URL computation of \<^verbatim>\<open>RequestNode.tsx\<close> (lines 20 to 75): it resolves the path as
  \<^verbatim>\<open>computeActivePathNodes\<close> does, and then collects the segments of the nodes on the
  resolved path.
\<close>

definition requestNodeSegment ::
    "(string \<rightharpoonup> string) \<Rightarrow> ApiBlock list \<Rightarrow> string \<Rightarrow> string list" where
  "requestNodeSegment vars ns nodeId =
     (case find (\<lambda>n. node_id n = nodeId) ns of
        None \<Rightarrow> []
      | Some node \<Rightarrow>
          if block_type (data node) = BaseUrl then [block_value (data node)]
          else if block_type (data node) = Resource
          then [substituteParams vars (block_value (data node))]
          else [])"

definition requestNodeUrl :: "CanvasState \<Rightarrow> string option" where
  "requestNodeUrl s =
     (case activePathId s of
        None \<Rightarrow> None
      | Some t \<Rightarrow>
          if t = [] then None
          else
            let r = traceBackwards (nodes s) (edges s) t ({}, [])
            in if fst r
               then Some (collapseSlashes (joinSlash
                      (concat (map (requestNodeSegment (variables s) (nodes s)) (snd (snd r))))))
               else None)"

section \<open>Example states\<close>

definition noChanges :: "(unit, unit, unit) ReactFlow" where
  "noChanges =
     \<lparr>applyNodeChanges = (\<lambda>c ns. ns), applyEdgeChanges = (\<lambda>c es. es),
      addEdge = (\<lambda>c i es. es)\<rparr>"

definition okResponse :: ResponseState where
  "okResponse =
     \<lparr>status = 200, statusText = ''OK'', resp_data = ''{}'', resp_headers = Map.empty,
      resp_time = 12, resp_size = 2\<rparr>"

definition paramState :: CanvasState where
  "paramState =
     createDefaultState
       \<lparr>nodes :=
          [\<lparr>node_id = ''b'', data = mkBlock BaseUrl ''http://localhost:3000'' None\<rparr>,
           \<lparr>node_id = ''p'', data = mkBlock Resource ''{postId}'' None\<rparr>,
           \<lparr>node_id = ''m'', data = mkBlock Method [] (Some GET)\<rparr>],
        edges :=
          [\<lparr>edge_id = ''e1'', source = ''b'', target = ''p''\<rparr>,
           \<lparr>edge_id = ''e2'', source = ''p'', target = ''m''\<rparr>],
        activePathId := Some ''m'',
        variables := [''postId'' \<mapsto> []]\<rparr>"

definition constructorState :: CanvasState where
  "constructorState =
     createDefaultState
       \<lparr>nodes :=
          [\<lparr>node_id = ''b'', data = mkBlock BaseUrl ''http://localhost:3000'' None\<rparr>,
           \<lparr>node_id = ''p'', data = mkBlock Resource ''{constructor}'' None\<rparr>,
           \<lparr>node_id = ''m'', data = mkBlock Method [] (Some GET)\<rparr>],
        edges :=
          [\<lparr>edge_id = ''e1'', source = ''b'', target = ''p''\<rparr>,
           \<lparr>edge_id = ''e2'', source = ''p'', target = ''m''\<rparr>],
        activePathId := Some ''m'',
        variables := [''constructor'' \<mapsto> []]\<rparr>"

definition scenarioD :: CanvasState where
  "scenarioD =
     createDefaultState
       \<lparr>nodes :=
          [\<lparr>node_id = ''b'', data = mkBlock BaseUrl ''https://api.github.com'' None\<rparr>,
           \<lparr>node_id = ''u'', data = mkBlock Resource ''/users/'' None\<rparr>,
           \<lparr>node_id = ''o'', data = mkBlock Resource ''octocat'' None\<rparr>,
           \<lparr>node_id = ''m'', data = mkBlock Method [] (Some GET)\<rparr>],
        edges :=
          [\<lparr>edge_id = ''e1'', source = ''b'', target = ''u''\<rparr>,
           \<lparr>edge_id = ''e2'', source = ''u'', target = ''o''\<rparr>,
           \<lparr>edge_id = ''e3'', source = ''o'', target = ''m''\<rparr>],
        activePathId := Some ''m''\<rparr>"

definition protocolRelativeState :: CanvasState where
  "protocolRelativeState =
     createDefaultState
       \<lparr>nodes :=
          [\<lparr>node_id = ''b'', data = mkBlock BaseUrl ''//cdn.example.com'' None\<rparr>,
           \<lparr>node_id = ''a'', data = mkBlock Resource ''assets'' None\<rparr>,
           \<lparr>node_id = ''m'', data = mkBlock Method [] (Some GET)\<rparr>],
        edges :=
          [\<lparr>edge_id = ''e1'', source = ''b'', target = ''a''\<rparr>,
           \<lparr>edge_id = ''e2'', source = ''a'', target = ''m''\<rparr>],
        activePathId := Some ''m''\<rparr>"

definition branchState :: CanvasState where
  "branchState =
     createDefaultState
       \<lparr>nodes :=
          [\<lparr>node_id = ''b'', data = mkBlock BaseUrl ''http://localhost:3000'' None\<rparr>,
           \<lparr>node_id = ''r1'', data = mkBlock Resource ''orphan'' None\<rparr>,
           \<lparr>node_id = ''r2'', data = mkBlock Resource ''users'' None\<rparr>,
           \<lparr>node_id = ''m'', data = mkBlock Method [] (Some GET)\<rparr>],
        edges :=
          [\<lparr>edge_id = ''e1'', source = ''r1'', target = ''m''\<rparr>,
           \<lparr>edge_id = ''e2'', source = ''r2'', target = ''m''\<rparr>,
           \<lparr>edge_id = ''e3'', source = ''b'', target = ''r2''\<rparr>],
        activePathId := Some ''m''\<rparr>"

definition cyclicState :: CanvasState where
  "cyclicState =
     createDefaultState
       \<lparr>nodes :=
          [\<lparr>node_id = ''a'', data = mkBlock Resource ''users'' None\<rparr>,
           \<lparr>node_id = ''m'', data = mkBlock Method [] (Some GET)\<rparr>],
        edges :=
          [\<lparr>edge_id = ''e1'', source = ''a'', target = ''m''\<rparr>,
           \<lparr>edge_id = ''e2'', source = ''m'', target = ''a''\<rparr>],
        activePathId := Some ''m''\<rparr>"

definition scenarioE :: CanvasState where
  "scenarioE =
     createDefaultState
       \<lparr>nodes :=
          [\<lparr>node_id = ''b'', data = mkBlock BaseUrl ''http://localhost:3000'' None\<rparr>,
           \<lparr>node_id = ''r'', data = mkBlock Resource ''users'' None\<rparr>,
           \<lparr>node_id = ''c'', data = mkBlock Resource ''loop'' None\<rparr>,
           \<lparr>node_id = ''t'', data = mkBlock Method [] (Some GET)\<rparr>],
        edges :=
          [\<lparr>edge_id = ''e1'', source = ''c'', target = ''t''\<rparr>,
           \<lparr>edge_id = ''e2'', source = ''r'', target = ''t''\<rparr>,
           \<lparr>edge_id = ''e3'', source = ''b'', target = ''r''\<rparr>,
           \<lparr>edge_id = ''e4'', source = ''t'', target = ''c''\<rparr>],
        activePathId := Some ''t''\<rparr>"

definition editingSession :: "(unit, unit, unit) StoreOp list" where
  "editingSession =
     [SetActivePath (Some ''default-login-method''),
      AddNode ''n1'' Resource ''users'' None,
      UpdateNodeValue ''default-login-resource'' ''signin'',
      EnsureRequestNode ''default-login-method'' ''q1'' ''e9'',
      OnConnect () ''e10'']"

section \<open>Bounded histories\<close>

lemma step_history_le:
  "length (history s) \<le> 10 \<Longrightarrow> length (history (step rf op s)) \<le> 10"
  by (cases op)
     (auto simp: addNode_def onNodesChange_def onEdgesChange_def onConnect_def
        updateNodeValue_def updateNodeBodyFields_def updateNodeHeaders_def
        ensureRequestNode_def setActivePath_def setRequest_def setResponse_def
        clearResponse_def clearHistory_def removeHistoryItem_def addBodyHistory_def
        removeBodyHistoryItem_def setVariable_def resetToDefault_def createDefaultState_def
        Let_def intro: le_trans[OF length_filter_le]
        split: option.splits if_splits)

lemma step_bodyHistory_le:
  "length (bodyHistory s) \<le> 50 \<Longrightarrow> length (bodyHistory (step rf op s)) \<le> 50"
  by (cases op)
     (auto simp: addNode_def onNodesChange_def onEdgesChange_def onConnect_def
        updateNodeValue_def updateNodeBodyFields_def updateNodeHeaders_def
        ensureRequestNode_def setActivePath_def setRequest_def setResponse_def
        clearResponse_def clearHistory_def removeHistoryItem_def addBodyHistory_def
        removeBodyHistoryItem_def setVariable_def resetToDefault_def createDefaultState_def
        Let_def intro: le_trans[OF length_filter_le]
        split: option.splits if_splits)

lemma run_history_le:
  "length (history s) \<le> 10 \<Longrightarrow> length (history (run rf ops s)) \<le> 10"
  by (induction ops arbitrary: s) (auto simp: step_history_le)

lemma run_bodyHistory_le:
  "length (bodyHistory s) \<le> 50 \<Longrightarrow> length (bodyHistory (run rf ops s)) \<le> 50"
  by (induction ops arbitrary: s) (auto simp: step_bodyHistory_le)

text \<open>
  Claim C10. A \<^verbatim>\<open>setResponse\<close> call with a non-empty url and a method puts one new item
  in front of the history and keeps the first 10 items; an \<^verbatim>\<open>addBodyHistory\<close> call
  with a non-empty field list puts one new item in front of the body history and keeps the
  first 50. The default state has empty histories, and from any state within the bounds every
  sequence of store operations ends in a state with at most 10 history items and at most 50
  body history items.
\<close>

theorem history_bounded_newest_first:
  "(u \<noteq> [] \<longrightarrow>
      history (setResponse r (Some u) (Some m) newId now s) =
        take 10 (\<lparr>status = status r, statusText = statusText r, resp_data = resp_data r,
                   resp_headers = resp_headers r, resp_time = resp_time r,
                   resp_size = resp_size r, hist_id = newId, hist_url = u,
                   hist_method = m, hist_timestamp = now\<rparr> # history s))
   \<and> (fs \<noteq> [] \<longrightarrow>
      bodyHistory (addBodyHistory m' u' fs newId' now' s) =
        take 50 (\<lparr>bh_id = newId', bh_method = m', bh_url = u', bh_bodyFields = fs,
                   bh_timestamp = now'\<rparr> # bodyHistory s))
   \<and> length (history createDefaultState) \<le> 10
   \<and> length (bodyHistory createDefaultState) \<le> 50
   \<and> (length (history s) \<le> 10 \<and> length (bodyHistory s) \<le> 50 \<longrightarrow>
      length (history (run rf ops s)) \<le> 10 \<and> length (bodyHistory (run rf ops s)) \<le> 50)"
  by (simp add: setResponse_def addBodyHistory_def Let_def createDefaultState_def
        run_history_le run_bodyHistory_le)

theorem history_bounded_newest_first_witness:
  "history (setResponse okResponse (Some ''http://x/a'') (Some GET) ''h1'' 7 createDefaultState)
     = take 10 (\<lparr>status = status okResponse, statusText = statusText okResponse,
                  resp_data = resp_data okResponse, resp_headers = resp_headers okResponse,
                  resp_time = resp_time okResponse, resp_size = resp_size okResponse,
                  hist_id = ''h1'', hist_url = ''http://x/a'', hist_method = GET,
                  hist_timestamp = 7\<rparr> # history createDefaultState)
   \<and> bodyHistory (addBodyHistory POST ''http://x/a'' [\<lparr>field_key = ''k'', field_value = []\<rparr>]
                    ''b1'' 8 createDefaultState)
     = take 50 (\<lparr>bh_id = ''b1'', bh_method = POST, bh_url = ''http://x/a'',
                  bh_bodyFields = [\<lparr>field_key = ''k'', field_value = []\<rparr>],
                  bh_timestamp = 8\<rparr> # bodyHistory createDefaultState)
   \<and> length (history (run noChanges
         (replicate 12 (SetResponse okResponse (Some ''http://x/a'') (Some GET) ''h1'' 7))
         createDefaultState)) \<le> 10
   \<and> length (bodyHistory (run noChanges
         (replicate 12 (SetResponse okResponse (Some ''http://x/a'') (Some GET) ''h1'' 7))
         createDefaultState)) \<le> 50"
  using history_bounded_newest_first
          [of "''http://x/a''" okResponse GET "''h1''" 7 createDefaultState
              "[\<lparr>field_key = ''k'', field_value = []\<rparr>]" POST "''http://x/a''" "''b1''" 8
              noChanges
              "replicate 12 (SetResponse okResponse (Some ''http://x/a'') (Some GET) ''h1'' 7)"]
  by simp

section \<open>Request body\<close>

lemma bodyObj_snoc:
  "bodyObj (fs @ [f]) =
     (if field_key f \<noteq> [] then assignProperty (bodyObj fs) (field_key f) (field_value f)
      else bodyObj fs)"
  by (simp add: bodyObj_def)

lemma bodyObj_Nil: "bodyObj [] = Map.empty"
  by (simp add: bodyObj_def)

lemma bodyObj_lookup:
  "k \<noteq> ''__proto__'' \<Longrightarrow>
     bodyObj fs k =
       (if k = [] then None
        else map_option field_value (find (\<lambda>f. field_key f = k) (rev fs)))"
proof (induction fs rule: rev_induct)
  case Nil
  then show ?case by (simp add: bodyObj_Nil)
next
  case (snoc f fs)
  then show ?case by (auto simp: bodyObj_snoc assignProperty_def)
qed

lemma bodyObj_proto: "bodyObj fs ''__proto__'' = None"
  by (induction fs rule: rev_induct) (simp_all add: bodyObj_Nil bodyObj_snoc assignProperty_def)

text \<open>
  Claim C8, as stated, at a POST node whose only body field has an empty key: the request
  carries a body (the empty mapping) although no field has a non-empty key.
\<close>

theorem body_included_counterexample:
  "configData ((mkBlock Method [] (Some POST))
      \<lparr>bodyFields := Some [\<lparr>field_key = [], field_value = ''x''\<rparr>]\<rparr>) \<noteq> None"
  by (simp add: configData_def mkBlock_def hasBody_def)

text \<open>
  Claim C8, amended. The request includes a body exactly when the method is one of POST, PUT,
  PATCH and the list of body fields is not empty. The body is then the fold of the fields:
  the empty key is never bound, and any other key but \<^verbatim>\<open>__proto__\<close> is bound to the value
  of the last field with that key, whatever the value (the empty string included). Of the key
  \<^verbatim>\<open>__proto__\<close> the statement says nothing.
\<close>

theorem body_included_iff_fields_nonempty:
  "(configData d \<noteq> None) =
     (hasBody (case block_method d of None \<Rightarrow> GET | Some x \<Rightarrow> x)
      \<and> (case bodyFields d of None \<Rightarrow> [] | Some x \<Rightarrow> x) \<noteq> [])
   \<and> hasBody m = (m = POST \<or> m = PUT \<or> m = PATCH)
   \<and> (configData d \<noteq> None \<longrightarrow>
        configData d = Some (bodyObj (case bodyFields d of None \<Rightarrow> [] | Some x \<Rightarrow> x)))
   \<and> (k \<noteq> ''__proto__'' \<longrightarrow>
        bodyObj fs k =
          (if k = [] then None
           else map_option field_value (find (\<lambda>f. field_key f = k) (rev fs))))"
  by (simp add: configData_def Let_def hasBody_def bodyObj_lookup)

theorem body_included_iff_fields_nonempty_witness:
  "configData (data (nodes createDefaultState ! 5)) \<noteq> None
   \<and> configData (data (nodes createDefaultState ! 5))
       = Some (bodyObj [\<lparr>field_key = ''email'', field_value = []\<rparr>,
                        \<lparr>field_key = ''password'', field_value = []\<rparr>])
   \<and> bodyObj [\<lparr>field_key = ''email'', field_value = []\<rparr>,
               \<lparr>field_key = ''password'', field_value = []\<rparr>] ''email'' = Some []
   \<and> hasBody POST"
  using body_included_iff_fields_nonempty
          [of "data (nodes createDefaultState ! 5)" POST "''email''"
              "[\<lparr>field_key = ''email'', field_value = []\<rparr>,
                \<lparr>field_key = ''password'', field_value = []\<rparr>]"]
  by (simp add: createDefaultState_def mkBlock_def hasBody_def)

text \<open>
  A field with the key \<^verbatim>\<open>__proto__\<close> leaves no property in the body.
\<close>

lemma proto_key_field_dropped:
  "bodyObj [\<lparr>field_key = ''a'', field_value = ''1''\<rparr>,
            \<lparr>field_key = ''__proto__'', field_value = ''x''\<rparr>]
     = [''a'' \<mapsto> ''1'']"
  by (simp add: bodyObj_def assignProperty_def)

section \<open>Parameter substitution\<close>

declare replaceParams.simps(2) [simp del]

lemma replaceParams_Cons:
  "replaceParams vars (c # cs) =
     (if c = CHR ''{'' \<and> takeWhile isWordChar cs \<noteq> [] \<and> dropWhile isWordChar cs \<noteq> []
          \<and> hd (dropWhile isWordChar cs) = CHR ''}''
      then paramReplacement vars (takeWhile isWordChar cs)
             @ replaceParams vars (tl (dropWhile isWordChar cs))
      else c # replaceParams vars cs)"
  by (subst replaceParams.simps(2)) (simp only: Let_def)

lemma replaceParams_match:
  "c = CHR ''{'' \<and> takeWhile isWordChar cs \<noteq> [] \<and> dropWhile isWordChar cs \<noteq> []
      \<and> hd (dropWhile isWordChar cs) = CHR ''}''
   \<Longrightarrow> replaceParams vars (c # cs) =
         paramReplacement vars (takeWhile isWordChar cs)
           @ replaceParams vars (tl (dropWhile isWordChar cs))"
  by (subst replaceParams_Cons) (rule if_P)

lemma replaceParams_nomatch:
  "\<not> (c = CHR ''{'' \<and> takeWhile isWordChar cs \<noteq> [] \<and> dropWhile isWordChar cs \<noteq> []
      \<and> hd (dropWhile isWordChar cs) = CHR ''}'')
   \<Longrightarrow> replaceParams vars (c # cs) = c # replaceParams vars cs"
  by (subst replaceParams_Cons) (rule if_not_P)

lemma paramReplacement_empty_binding:
  "vars k = Some [] \<Longrightarrow> inheritedText k = None
     \<Longrightarrow> paramReplacement (vars(k := None)) key = paramReplacement vars key"
  by (simp add: paramReplacement_def readProperty_def)

lemma paramReplacement_own:
  "vars w \<noteq> None \<or> inheritedText w = None \<Longrightarrow>
     paramReplacement vars w =
       (case vars w of
          None \<Rightarrow> ''{'' @ w @ ''}''
        | Some v \<Rightarrow> if v = [] then ''{'' @ w @ ''}'' else v)"
  by (auto simp: paramReplacement_def readProperty_def split: option.splits)

lemma replaceParams_cong:
  assumes eq: "\<And>key. paramReplacement v1 key = paramReplacement v2 key"
  shows "replaceParams v1 s = replaceParams v2 s"
  using eq
proof (induction v1 s rule: replaceParams.induct)
  case (1 variables)
  then show ?case by simp
next
  case (2 variables c cs)
  let ?M = "c = CHR ''{'' \<and> takeWhile isWordChar cs \<noteq> [] \<and> dropWhile isWordChar cs \<noteq> []
             \<and> hd (dropWhile isWordChar cs) = CHR ''}''"
  show ?case
  proof (cases ?M)
    case True
    have "replaceParams variables (tl (dropWhile isWordChar cs))
            = replaceParams v2 (tl (dropWhile isWordChar cs))"
      using 2(1)[OF refl refl True] 2(3) by simp
    then show ?thesis
      by (simp only: replaceParams_match[OF True] 2(3))
  next
    case False
    have "replaceParams variables cs = replaceParams v2 cs"
      using 2(2)[OF refl refl False] 2(3) by simp
    then show ?thesis
      by (simp only: replaceParams_nomatch[OF False])
  qed
qed

lemma substituteParams_cong:
  "(\<And>key. paramReplacement v1 key = paramReplacement v2 key)
     \<Longrightarrow> substituteParams v1 s = substituteParams v2 s"
  using replaceParams_cong[of v1 v2 s] by (simp add: substituteParams_def)

lemma traceUrl_cong:
  assumes "\<And>v. substituteParams v1 v = substituteParams v2 v"
  shows "traceBackwardsUrl ns es v1 n st = traceBackwardsUrl ns es v2 n st"
    and "traceIncomingUrl ns es v1 inc st = traceIncomingUrl ns es v2 inc st"
  using assms
proof (induction ns es v1 n st and ns es v1 inc st
        rule: traceBackwardsUrl_traceIncomingUrl.induct)
  case (1 nodes edges variables nodeId st)
  then show ?case
    by (simp add: traceBackwardsUrl.simps[of nodes edges _ nodeId st] Let_def
          split: option.splits)
next
  case (2 nodes edges variables st)
  then show ?case by simp
next
  case (3 nodes edges variables edge rest st)
  then show ?case by (simp add: Let_def)
qed

text \<open>
  A name bound to the empty string gets its placeholder \<^verbatim>\<open>{name}\<close>, and when the name
  is not the name of an inherited member the computed URL is the one computed with the binding
  removed.
\<close>

lemma empty_binding_same_as_unbound:
  "variables s k = Some [] \<Longrightarrow>
     paramReplacement (variables s) k = ''{'' @ k @ ''}''
     \<and> (inheritedText k = None \<longrightarrow>
          getComputedUrl (s\<lparr>variables := (variables s)(k := None)\<rparr>) = getComputedUrl s)"
proof -
  assume a: "variables s k = Some []"
  have u: "getComputedUrl (s\<lparr>variables := (variables s)(k := None)\<rparr>) = getComputedUrl s"
    if i: "inheritedText k = None"
  proof -
    have "\<And>v. substituteParams ((variables s)(k := None)) v = substituteParams (variables s) v"
      by (intro substituteParams_cong paramReplacement_empty_binding a i)
    then have "traceBackwardsUrl (nodes s) (edges s) ((variables s)(k := None)) t st
          = traceBackwardsUrl (nodes s) (edges s) (variables s) t st" for t st
      by (rule traceUrl_cong(1))
    then show ?thesis
      by (simp add: getComputedUrl_def split: option.splits)
  qed
  have "paramReplacement (variables s) k = ''{'' @ k @ ''}''"
    using a by (simp add: paramReplacement_def readProperty_def)
  then show ?thesis using u by simp
qed

text \<open>
  Claim C9 at the segment \<^verbatim>\<open>{constructor}\<close>. With \<^verbatim>\<open>constructor\<close> bound to the empty
  string the placeholder stays in the URL. With the binding removed the lookup
  \<^verbatim>\<open>variables[key]\<close> finds the member that the table object inherits from
  \<^verbatim>\<open>Object.prototype\<close>, and its text is put in place of the placeholder: the unbound name
  is not treated as the name bound to the empty string is.
\<close>

theorem inherited_name_unbound_is_replaced:
  "variables constructorState ''constructor'' = Some []
   \<and> getComputedUrl constructorState = Some ''http://localhost:3000/{constructor}''
   \<and> getComputedUrl
        (constructorState\<lparr>variables := (variables constructorState)(''constructor'' := None)\<rparr>)
       = Some ''http://localhost:3000/function Object() { [native code] }''"
  by code_simp

theorem inherited_name_unbound_is_replaced_witness:
  "getComputedUrl
     (constructorState\<lparr>variables := (variables constructorState)(''constructor'' := None)\<rparr>)
     \<noteq> getComputedUrl constructorState"
  using inherited_name_unbound_is_replaced by simp

text \<open>
  The test \<^verbatim>\<open>isParam\<close> never blocks a replacement: a value that fails the test has no
  match of the replacing pattern, so the substituted value is the result of the scan.
\<close>

lemma not_word_braces [simp]: "\<not> isWordChar CHR ''{''" "\<not> isWordChar CHR ''}''"
  by (simp_all add: isWordChar_def)

lemma word_not_lineTerminator: "isWordChar c \<Longrightarrow> \<not> isLineTerminator c"
  by (auto simp: isWordChar_def isLineTerminator_def)

lemma replaceParams_placeholder:
  assumes "w \<noteq> []" "\<forall>c\<in>set w. isWordChar c"
  shows "replaceParams vars (CHR ''{'' # w @ CHR ''}'' # post)
           = paramReplacement vars w @ replaceParams vars post"
proof -
  have t: "takeWhile isWordChar (w @ CHR ''}'' # post) = w"
    using assms by (simp add: takeWhile_append2)
  have d: "dropWhile isWordChar (w @ CHR ''}'' # post) = CHR ''}'' # post"
    using assms by (simp add: dropWhile_append2)
  show ?thesis
    using replaceParams_match[of "CHR ''{''" "w @ CHR ''}'' # post" vars] assms
    by (simp add: t d)
qed

lemma replaceParams_split_brace:
  "replaceParams vars (pre @ CHR ''{'' # rest)
     = replaceParams vars pre @ replaceParams vars (CHR ''{'' # rest)"
proof (induction vars pre rule: replaceParams.induct)
  case (1 variables)
  then show ?case by simp
next
  case (2 variables c cs)
  let ?r = "CHR ''{'' # rest"
  let ?M = "\<lambda>xs. c = CHR ''{'' \<and> takeWhile isWordChar xs \<noteq> [] \<and> dropWhile isWordChar xs \<noteq> []
             \<and> hd (dropWhile isWordChar xs) = CHR ''}''"
  show ?case
  proof (cases "\<forall>x\<in>set cs. isWordChar x")
    case True
    then have d1: "dropWhile isWordChar cs = []" by simp
    have d2: "dropWhile isWordChar (cs @ ?r) = ?r"
      using True by (simp add: dropWhile_append2)
    have n1: "\<not> ?M cs" using d1 by simp
    have n2: "\<not> ?M (cs @ ?r)" using d2 by simp
    have "replaceParams variables (cs @ ?r) = replaceParams variables cs @ replaceParams variables ?r"
      using 2(2)[OF refl refl n1] .
    then show ?thesis
      using replaceParams_nomatch[OF n1, of variables] replaceParams_nomatch[OF n2, of variables]
      by simp
  next
    case False
    then obtain x where x: "x \<in> set cs" "\<not> isWordChar x" by auto
    have t: "takeWhile isWordChar (cs @ ?r) = takeWhile isWordChar cs"
      using x by (rule takeWhile_append1)
    have d: "dropWhile isWordChar (cs @ ?r) = dropWhile isWordChar cs @ ?r"
      using x by (rule dropWhile_append1)
    have ne: "dropWhile isWordChar cs \<noteq> []" using x by auto
    have M_eq: "?M (cs @ ?r) = ?M cs"
      using ne by (simp add: t d)
    show ?thesis
    proof (cases "?M cs")
      case True
      have ih: "replaceParams variables (tl (dropWhile isWordChar cs) @ ?r)
              = replaceParams variables (tl (dropWhile isWordChar cs)) @ replaceParams variables ?r"
        using 2(1)[OF refl refl True] .
      have M2: "?M (cs @ ?r)" using True M_eq by simp
      show ?thesis
        using replaceParams_match[OF True, of variables] replaceParams_match[OF M2, of variables]
          ih ne
        by (simp add: t d)
    next
      case False
      have ih: "replaceParams variables (cs @ ?r)
                  = replaceParams variables cs @ replaceParams variables ?r"
        using 2(2)[OF refl refl False] .
      have M2: "\<not> ?M (cs @ ?r)" using False M_eq by simp
      show ?thesis
        using replaceParams_nomatch[OF False, of variables] replaceParams_nomatch[OF M2, of variables]
          ih
        by simp
    qed
  qed
qed

lemma isParam_append: "isParam s \<Longrightarrow> isParam (pre @ s)"
  by (induction pre) auto

lemma isParam_placeholder:
  assumes "w \<noteq> []" "\<forall>c\<in>set w. \<not> isLineTerminator c"
  shows "isParam (CHR ''{'' # w @ CHR ''}'' # post)"
proof -
  have "takeWhile (\<lambda>d. \<not> isLineTerminator d) (w @ CHR ''}'' # post)
          = w @ CHR ''}'' # takeWhile (\<lambda>d. \<not> isLineTerminator d) post"
    using assms by (simp add: takeWhile_append2 isLineTerminator_def)
  then show ?thesis using assms by (cases w) auto
qed

lemma replaceParams_not_param:
  "\<not> isParam s \<Longrightarrow> replaceParams vars s = s"
proof (induction vars s rule: replaceParams.induct)
  case (1 variables)
  then show ?case by simp
next
  case (2 variables c cs)
  let ?M = "c = CHR ''{'' \<and> takeWhile isWordChar cs \<noteq> [] \<and> dropWhile isWordChar cs \<noteq> []
             \<and> hd (dropWhile isWordChar cs) = CHR ''}''"
  have nm: "\<not> ?M"
  proof
    assume m: ?M
    then obtain post where p: "dropWhile isWordChar cs = CHR ''}'' # post"
      by (cases "dropWhile isWordChar cs") auto
    have "cs = takeWhile isWordChar cs @ CHR ''}'' # post"
      using takeWhile_dropWhile_id[of isWordChar cs] p by simp
    moreover have "\<forall>x\<in>set (takeWhile isWordChar cs). \<not> isLineTerminator x"
      using word_not_lineTerminator by (auto dest: set_takeWhileD)
    ultimately have "isParam (CHR ''{'' # cs)"
      using isParam_placeholder[of "takeWhile isWordChar cs" post] m by simp
    then show False using 2(3) m by simp
  qed
  have "\<not> isParam cs" using 2(3) by simp
  then have "replaceParams variables cs = cs" using 2(2)[OF refl refl nm] by simp
  then show ?case using replaceParams_nomatch[OF nm, of variables] by simp
qed

lemma substituteParams_eq_replaceParams: "substituteParams vars s = replaceParams vars s"
  by (simp add: substituteParams_def replaceParams_not_param)

lemma replaceParams_no_placeholder:
  "(\<And>pre w post. s = pre @ CHR ''{'' # w @ CHR ''}'' # post \<Longrightarrow> w \<noteq> []
       \<Longrightarrow> \<exists>c\<in>set w. \<not> isWordChar c)
   \<Longrightarrow> replaceParams vars s = s"
proof (induction vars s rule: replaceParams.induct)
  case (1 variables)
  then show ?case by simp
next
  case (2 variables c cs)
  let ?M = "c = CHR ''{'' \<and> takeWhile isWordChar cs \<noteq> [] \<and> dropWhile isWordChar cs \<noteq> []
             \<and> hd (dropWhile isWordChar cs) = CHR ''}''"
  have nm: "\<not> ?M"
  proof
    assume m: ?M
    then obtain post where p: "dropWhile isWordChar cs = CHR ''}'' # post"
      by (cases "dropWhile isWordChar cs") auto
    have "c # cs = [] @ CHR ''{'' # takeWhile isWordChar cs @ CHR ''}'' # post"
      using takeWhile_dropWhile_id[of isWordChar cs] p m by simp
    from 2(3)[OF this] m have "\<exists>x\<in>set (takeWhile isWordChar cs). \<not> isWordChar x" by simp
    then show False by (auto dest: set_takeWhileD)
  qed
  have "replaceParams variables cs = cs"
  proof (rule 2(2)[OF refl refl nm])
    fix pre w post
    assume "cs = pre @ CHR ''{'' # w @ CHR ''}'' # post" "w \<noteq> []"
    then show "\<exists>c\<in>set w. \<not> isWordChar c"
      using 2(3)[of "c # pre" w post] by simp
  qed
  then show ?case using replaceParams_nomatch[OF nm, of variables] by simp
qed

text \<open>
  Claim C6, as stated, at the segment \<^verbatim>\<open>{postId}\<close> with \<^verbatim>\<open>postId\<close> bound to the
  empty string: the placeholder is not replaced by the bound value, it stays.
\<close>

theorem empty_binding_counterexample:
  "[''postId'' \<mapsto> []] ''postId'' = Some ([] :: string)
   \<and> substituteParams [''postId'' \<mapsto> []] ''{postId}'' = ''{postId}''"
  by code_simp

text \<open>
  Claim C6, amended. In a resource value every occurrence of \<^verbatim>\<open>{word}\<close> (a non-empty
  run of letters, digits and underscores in braces) is replaced by the value bound to the word
  when that value is a non-empty string, and stays as it is when the word is bound to the
  empty string, or is unbound and not the name of a member that the table object inherits;
  the text before and after the occurrence is substituted on its own. A value with no such
  occurrence is unchanged. \<^verbatim>\<open>{postId}\<close> becomes \<^verbatim>\<open>42\<close> under the binding of
  \<^verbatim>\<open>postId\<close> to \<^verbatim>\<open>42\<close>, and stays under the empty table. Of an unbound word that
  names an inherited member the statement says nothing.
\<close>

theorem placeholders_replaced_by_nonempty_bindings:
  "(w \<noteq> [] \<and> (\<forall>c\<in>set w. isWordChar c) \<and> (vars w \<noteq> None \<or> inheritedText w = None) \<longrightarrow>
      substituteParams vars (pre @ ''{'' @ w @ ''}'' @ post)
        = substituteParams vars pre
          @ (case vars w of
               None \<Rightarrow> ''{'' @ w @ ''}''
             | Some v \<Rightarrow> if v = [] then ''{'' @ w @ ''}'' else v)
          @ substituteParams vars post)
   \<and> ((\<forall>pre w post. s = pre @ ''{'' @ w @ ''}'' @ post \<and> w \<noteq> []
          \<longrightarrow> (\<exists>c\<in>set w. \<not> isWordChar c))
        \<longrightarrow> substituteParams vars s = s)
   \<and> substituteParams [''postId'' \<mapsto> ''42''] ''{postId}'' = ''42''
   \<and> substituteParams Map.empty ''{postId}'' = ''{postId}''"
proof -
  have a: "substituteParams vars (pre @ ''{'' @ w @ ''}'' @ post)
        = substituteParams vars pre @ paramReplacement vars w @ substituteParams vars post"
    if "w \<noteq> []" "\<forall>c\<in>set w. isWordChar c"
    using that replaceParams_split_brace[of vars pre "w @ CHR ''}'' # post"]
      replaceParams_placeholder[of w vars post]
    by (simp add: substituteParams_eq_replaceParams)
  have b: "substituteParams vars s = s"
    if "\<forall>pre w post. s = pre @ ''{'' @ w @ ''}'' @ post \<and> w \<noteq> []
          \<longrightarrow> (\<exists>c\<in>set w. \<not> isWordChar c)"
  proof -
    have "replaceParams vars s = s"
    proof (rule replaceParams_no_placeholder)
      fix pre w post
      assume "s = pre @ CHR ''{'' # w @ CHR ''}'' # post" "w \<noteq> []"
      then show "\<exists>c\<in>set w. \<not> isWordChar c"
        using that[rule_format, of pre w post] by simp
    qed
    then show ?thesis by (simp add: substituteParams_eq_replaceParams)
  qed
  have c: "substituteParams [''postId'' \<mapsto> ''42''] ''{postId}'' = ''42''"
    by code_simp
  have d: "substituteParams Map.empty ''{postId}'' = ''{postId}''"
    by code_simp
  show ?thesis using a b c d paramReplacement_own[of vars w]
    by simp
qed

theorem placeholders_replaced_by_nonempty_bindings_witness:
  "substituteParams [''postId'' \<mapsto> ''42''] (''posts/'' @ ''{'' @ ''postId'' @ ''}'' @ ''/c{x}'')
     = substituteParams [''postId'' \<mapsto> ''42''] ''posts/'' @ ''42''
       @ substituteParams [''postId'' \<mapsto> ''42''] ''/c{x}''
   \<and> substituteParams [''postId'' \<mapsto> ''42''] ''posts/{postId}/c{x}'' = ''posts/42/c{x}''
   \<and> substituteParams [''postId'' \<mapsto> ''42''] ''users'' = ''users''"
proof -
  have w: "''postId'' \<noteq> [] \<and> (\<forall>c\<in>set ''postId''. isWordChar c)"
    by (simp add: isWordChar_def)
  have i: "inheritedText ''postId'' = None"
    by (simp add: inheritedText_def)
  have n: "\<forall>pre w post. ''users'' = pre @ ''{'' @ w @ ''}'' @ post \<and> w \<noteq> []
             \<longrightarrow> (\<exists>c\<in>set w. \<not> isWordChar c)"
  proof (intro allI impI)
    fix pre w post
    assume "''users'' = pre @ ''{'' @ w @ ''}'' @ post \<and> w \<noteq> []"
    then have "set ''users'' = set (pre @ ''{'' @ w @ ''}'' @ post)" by metis
    then have "CHR ''{'' \<in> set ''users''" by simp
    then show "\<exists>c\<in>set w. \<not> isWordChar c" by simp
  qed
  have v: "substituteParams [''postId'' \<mapsto> ''42''] ''posts/{postId}/c{x}'' = ''posts/42/c{x}''"
    by code_simp
  show ?thesis
    using placeholders_replaced_by_nonempty_bindings
            [of "''postId''" "[''postId'' \<mapsto> ''42'']" "''posts/''" "''/c{x}''" "''users''"]
      w i n v
    by simp
qed

section \<open>Slash collapse\<close>

declare collapseSlashes.simps(3) [simp del]

lemma collapseSlashes_match:
  "c \<noteq> CHR '':'' \<and> d = CHR ''/'' \<and> cs \<noteq> [] \<and> hd cs = CHR ''/''
   \<Longrightarrow> collapseSlashes (c # d # cs) = c # d # collapseSlashes (dropWhile (\<lambda>x. x = CHR ''/'') cs)"
  by (subst collapseSlashes.simps(3)) (rule if_P)

lemma collapseSlashes_nomatch:
  "\<not> (c \<noteq> CHR '':'' \<and> d = CHR ''/'' \<and> cs \<noteq> [] \<and> hd cs = CHR ''/'')
   \<Longrightarrow> collapseSlashes (c # d # cs) = c # collapseSlashes (d # cs)"
  by (subst collapseSlashes.simps(3)) (rule if_not_P)

lemma collapseSlashes_split:
  "c \<noteq> CHR ''/'' \<Longrightarrow>
     collapseSlashes (pre @ c # rest) = collapseSlashes pre @ collapseSlashes (c # rest)"
proof (induction pre rule: collapseSlashes.induct)
  case 1
  then show ?case by simp
next
  case (2 x)
  have "\<not> (x \<noteq> CHR '':'' \<and> c = CHR ''/'' \<and> rest \<noteq> [] \<and> hd rest = CHR ''/'')"
    using 2 by simp
  from collapseSlashes_nomatch[OF this] show ?case by simp
next
  case (3 x d cs)
  let ?M = "\<lambda>ys. x \<noteq> CHR '':'' \<and> d = CHR ''/'' \<and> ys \<noteq> [] \<and> hd ys = CHR ''/''"
  have M_eq: "?M (cs @ c # rest) = ?M cs"
    using 3(3) by (cases cs) auto
  show ?case
  proof (cases "?M cs")
    case True
    have M2: "?M (cs @ c # rest)" using True M_eq by simp
    have dw: "dropWhile (\<lambda>x. x = CHR ''/'') (cs @ c # rest)
                = dropWhile (\<lambda>x. x = CHR ''/'') cs @ c # rest"
      using 3(3) by (simp add: dropWhile_append)
    have ih: "collapseSlashes (dropWhile (\<lambda>x. x = CHR ''/'') cs @ c # rest)
               = collapseSlashes (dropWhile (\<lambda>x. x = CHR ''/'') cs) @ collapseSlashes (c # rest)"
      using 3(1)[OF True 3(3)] .
    show ?thesis
      using collapseSlashes_match[OF True] collapseSlashes_match[OF M2] ih dw by simp
  next
    case False
    have M2: "\<not> ?M (cs @ c # rest)" using False M_eq by simp
    have ih: "collapseSlashes ((d # cs) @ c # rest)
               = collapseSlashes (d # cs) @ collapseSlashes (c # rest)"
      using 3(2)[OF False 3(3)] .
    show ?thesis
      using collapseSlashes_nomatch[OF False] collapseSlashes_nomatch[OF M2] ih by simp
  qed
qed

lemma dropWhile_slashes:
  "post = [] \<or> hd post \<noteq> CHR ''/'' \<Longrightarrow>
     dropWhile (\<lambda>x. x = CHR ''/'') (replicate k CHR ''/'' @ post) = post"
  by (cases post) (auto simp: dropWhile_append)

lemma collapseSlashes_run:
  assumes "c \<noteq> CHR '':''" "post = [] \<or> hd post \<noteq> CHR ''/''"
  shows "collapseSlashes (c # replicate (Suc (Suc k)) CHR ''/'' @ post)
           = c # CHR ''/'' # collapseSlashes post"
proof -
  have "c \<noteq> CHR '':'' \<and> CHR ''/'' = CHR ''/'' \<and> replicate (Suc k) CHR ''/'' @ post \<noteq> []
          \<and> hd (replicate (Suc k) CHR ''/'' @ post) = CHR ''/''"
    using assms by simp
  from collapseSlashes_match[OF this] show ?thesis
    using dropWhile_slashes[OF assms(2), of "Suc k"] by simp
qed

lemma collapseSlashes_two:
  assumes "post = [] \<or> hd post \<noteq> CHR ''/''"
  shows "collapseSlashes (CHR ''/'' # CHR ''/'' # post) = CHR ''/'' # CHR ''/'' # collapseSlashes post"
proof -
  have n1: "\<not> (CHR ''/'' \<noteq> CHR '':'' \<and> CHR ''/'' = CHR ''/'' \<and> post \<noteq> [] \<and> hd post = CHR ''/'')"
    using assms by auto
  have s1: "collapseSlashes (CHR ''/'' # post) = CHR ''/'' # collapseSlashes post"
  proof (cases post)
    case Nil
    then show ?thesis by simp
  next
    case (Cons p ps)
    then have "\<not> (CHR ''/'' \<noteq> CHR '':'' \<and> p = CHR ''/'' \<and> ps \<noteq> [] \<and> hd ps = CHR ''/'')"
      using assms by simp
    from collapseSlashes_nomatch[OF this] show ?thesis using Cons by simp
  qed
  show ?thesis using collapseSlashes_nomatch[OF n1] s1 by simp
qed

lemma collapseSlashes_leading_run:
  assumes "post = [] \<or> hd post \<noteq> CHR ''/''"
  shows "collapseSlashes (replicate (Suc (Suc k)) CHR ''/'' @ post)
           = CHR ''/'' # CHR ''/'' # collapseSlashes post"
proof (cases k)
  case 0
  then show ?thesis using collapseSlashes_two[OF assms] by simp
next
  case (Suc j)
  then show ?thesis
    using collapseSlashes_run[of "CHR ''/''" post j] assms by simp
qed

lemma collapseSlashes_colon:
  "collapseSlashes (CHR '':'' # cs) = CHR '':'' # collapseSlashes cs"
proof (cases cs)
  case Nil
  then show ?thesis by simp
next
  case (Cons d ds)
  have "\<not> (CHR '':'' \<noteq> CHR '':'' \<and> d = CHR ''/'' \<and> ds \<noteq> [] \<and> hd ds = CHR ''/'')" by simp
  from collapseSlashes_nomatch[OF this] show ?thesis using Cons by simp
qed

lemma collapseSlashes_hd: "collapseSlashes (c # cs) = c # tl (collapseSlashes (c # cs))"
proof (cases cs)
  case Nil
  then show ?thesis by simp
next
  case (Cons d ds)
  then show ?thesis
    by (cases "c \<noteq> CHR '':'' \<and> d = CHR ''/'' \<and> ds \<noteq> [] \<and> hd ds = CHR ''/''")
       (simp_all add: collapseSlashes_match collapseSlashes_nomatch)
qed

lemma collapseSlashes_no_leading_slash:
  "r0 = [] \<or> hd r0 \<noteq> CHR ''/'' \<Longrightarrow> collapseSlashes r0 \<noteq> CHR ''/'' # t"
proof (cases r0)
  case Nil
  then show ?thesis by simp
next
  case (Cons a as)
  assume "r0 = [] \<or> hd r0 \<noteq> CHR ''/''"
  then have "a \<noteq> CHR ''/''" using Cons by simp
  then show ?thesis using collapseSlashes_hd[of a as] Cons by auto
qed

lemma slashesCollapsed_Cons:
  "slashesCollapsed t \<Longrightarrow>
     \<not> (x \<noteq> CHR '':'' \<and> (\<exists>r. t = CHR ''/'' # CHR ''/'' # r)) \<Longrightarrow> slashesCollapsed (x # t)"
  by (cases t rule: slashesCollapsed.cases) auto

lemma slashesCollapsed_collapseSlashes: "slashesCollapsed (collapseSlashes s)"
proof (induction s rule: collapseSlashes.induct)
  case 1
  then show ?case by simp
next
  case (2 c)
  then show ?case by simp
next
  case (3 c d cs)
  let ?M = "c \<noteq> CHR '':'' \<and> d = CHR ''/'' \<and> cs \<noteq> [] \<and> hd cs = CHR ''/''"
  show ?case
  proof (cases ?M)
    case True
    let ?r = "dropWhile (\<lambda>x. x = CHR ''/'') cs"
    have ih: "slashesCollapsed (collapseSlashes ?r)" using 3(1)[OF True] .
    have nr: "?r = [] \<or> hd ?r \<noteq> CHR ''/''"
      using hd_dropWhile[of "\<lambda>x. x = CHR ''/''" cs] by auto
    have nh: "\<not> (\<exists>r. collapseSlashes ?r = CHR ''/'' # r)"
      using collapseSlashes_no_leading_slash[OF nr] by blast
    have s1: "slashesCollapsed (d # collapseSlashes ?r)"
      by (rule slashesCollapsed_Cons[OF ih]) (use nh in auto)
    have "slashesCollapsed (c # d # collapseSlashes ?r)"
      by (rule slashesCollapsed_Cons[OF s1]) (use nh in auto)
    then show ?thesis using collapseSlashes_match[OF True] by simp
  next
    case False
    have ih: "slashesCollapsed (collapseSlashes (d # cs))" using 3(2)[OF False] .
    have "\<not> (c \<noteq> CHR '':'' \<and> (\<exists>r. collapseSlashes (d # cs) = CHR ''/'' # CHR ''/'' # r))"
    proof
      assume a: "c \<noteq> CHR '':'' \<and> (\<exists>r. collapseSlashes (d # cs) = CHR ''/'' # CHR ''/'' # r)"
      then obtain r where r: "collapseSlashes (d # cs) = CHR ''/'' # CHR ''/'' # r" by blast
      have d: "d = CHR ''/''" using r collapseSlashes_hd[of d cs] by simp
      show False
      proof (cases cs)
        case Nil
        then show ?thesis using r by simp
      next
        case (Cons e es)
        then have e: "e \<noteq> CHR ''/''" using False a d by simp
        then have "\<not> (d \<noteq> CHR '':'' \<and> e = CHR ''/'' \<and> es \<noteq> [] \<and> hd es = CHR ''/'')" by simp
        from collapseSlashes_nomatch[OF this]
        have "collapseSlashes (d # cs) = d # collapseSlashes (e # es)" using Cons by simp
        with r have "d # collapseSlashes (e # es) = CHR ''/'' # CHR ''/'' # r" by metis
        then have "collapseSlashes (e # es) = CHR ''/'' # r" by blast
        then show ?thesis using collapseSlashes_hd[of e es] e by simp
      qed
    qed
    then have "slashesCollapsed (c # collapseSlashes (d # cs))"
      by (rule slashesCollapsed_Cons[OF ih])
    then show ?thesis using collapseSlashes_nomatch[OF False] by simp
  qed
qed

lemma slashesCollapsed_decomp:
  "slashesCollapsed (pre @ x # CHR ''/'' # CHR ''/'' # post) \<Longrightarrow> x = CHR '':''"
  by (induction pre rule: slashesCollapsed.induct) simp_all

text \<open>
  Claim C7, as stated, at a base URL that starts with two slashes, and at a text that starts
  with three: the leading run is not part of \<^verbatim>\<open>://\<close> and is not collapsed to one slash.
\<close>

theorem leading_slashes_counterexample:
  "getComputedUrl protocolRelativeState = Some ''//cdn.example.com/assets''
   \<and> collapseSlashes ''///a'' = ''//a''"
  by code_simp

text \<open>
  Claim C7, amended. A run of two or more slashes that directly follows a character other than
  a colon is replaced by one slash. A run of two or more slashes directly after a colon, or at
  the start of the text, is left with exactly two slashes. So in the result two slashes in a
  row occur only at the start or directly after a colon. With base
  \<^verbatim>\<open>https://api.github.com\<close>, resources \<^verbatim>\<open>/users/\<close> and \<^verbatim>\<open>octocat\<close> and a GET
  method the URL is \<^verbatim>\<open>https://api.github.com/users/octocat\<close>.
\<close>

theorem slashes_collapsed_after_non_colon:
  "(c \<noteq> CHR '':'' \<and> c \<noteq> CHR ''/'' \<and> (post = [] \<or> hd post \<noteq> CHR ''/'') \<longrightarrow>
      collapseSlashes (pre @ c # replicate (Suc (Suc k)) CHR ''/'' @ post)
        = collapseSlashes pre @ c # CHR ''/'' # collapseSlashes post)
   \<and> (post = [] \<or> hd post \<noteq> CHR ''/'' \<longrightarrow>
      collapseSlashes (pre @ CHR '':'' # replicate (Suc (Suc k)) CHR ''/'' @ post)
        = collapseSlashes pre @ ''://'' @ collapseSlashes post)
   \<and> (post = [] \<or> hd post \<noteq> CHR ''/'' \<longrightarrow>
      collapseSlashes (replicate (Suc (Suc k)) CHR ''/'' @ post) = ''//'' @ collapseSlashes post)
   \<and> (collapseSlashes s = before @ x # ''//'' @ after \<longrightarrow> x = CHR '':'')
   \<and> getComputedUrl scenarioD = Some ''https://api.github.com/users/octocat''"
proof -
  have a: "collapseSlashes (pre @ c # replicate (Suc (Suc k)) CHR ''/'' @ post)
        = collapseSlashes pre @ c # CHR ''/'' # collapseSlashes post"
    if "c \<noteq> CHR '':''" "c \<noteq> CHR ''/''" "post = [] \<or> hd post \<noteq> CHR ''/''"
    using collapseSlashes_split[OF that(2), of pre "replicate (Suc (Suc k)) CHR ''/'' @ post"]
      collapseSlashes_run[OF that(1) that(3), of k]
    by simp
  have l: "collapseSlashes (replicate (Suc (Suc k)) CHR ''/'' @ post)
             = ''//'' @ collapseSlashes post"
    if "post = [] \<or> hd post \<noteq> CHR ''/''"
    using collapseSlashes_leading_run[OF that, of k] by simp
  have b: "collapseSlashes (pre @ CHR '':'' # replicate (Suc (Suc k)) CHR ''/'' @ post)
        = collapseSlashes pre @ ''://'' @ collapseSlashes post"
    if "post = [] \<or> hd post \<noteq> CHR ''/''"
  proof -
    have "collapseSlashes (pre @ CHR '':'' # replicate (Suc (Suc k)) CHR ''/'' @ post)
            = collapseSlashes pre
              @ collapseSlashes (CHR '':'' # replicate (Suc (Suc k)) CHR ''/'' @ post)"
      by (rule collapseSlashes_split) simp
    then show ?thesis
      using collapseSlashes_colon[of "replicate (Suc (Suc k)) CHR ''/'' @ post"] l[OF that]
      by simp
  qed
  have d: "x = CHR '':''" if "collapseSlashes s = before @ x # ''//'' @ after"
  proof -
    have "slashesCollapsed (before @ x # CHR ''/'' # CHR ''/'' # after)"
      using slashesCollapsed_collapseSlashes[of s] that by simp
    then show ?thesis by (rule slashesCollapsed_decomp)
  qed
  have e: "getComputedUrl scenarioD = Some ''https://api.github.com/users/octocat''"
    by code_simp
  show ?thesis using a b l d e by blast
qed

theorem slashes_collapsed_after_non_colon_witness:
  "collapseSlashes (''http://h/'' @ CHR ''a'' # replicate (Suc (Suc 1)) CHR ''/'' @ ''b'')
     = collapseSlashes ''http://h/'' @ CHR ''a'' # CHR ''/'' # collapseSlashes ''b''
   \<and> collapseSlashes (''http://h/'' @ CHR '':'' # replicate (Suc (Suc 1)) CHR ''/'' @ ''b'')
     = collapseSlashes ''http://h/'' @ ''://'' @ collapseSlashes ''b''
   \<and> collapseSlashes (replicate (Suc (Suc 1)) CHR ''/'' @ ''b'') = ''//'' @ collapseSlashes ''b''
   \<and> collapseSlashes ''http://h/a///b'' = ''http://h/a/b''
   \<and> collapseSlashes ''http://h'' = ''http'' @ CHR '':'' # ''//'' @ ''h''
   \<and> getComputedUrl scenarioD = Some ''https://api.github.com/users/octocat''"
proof -
  have h: "collapseSlashes ''http://h'' = ''http'' @ CHR '':'' # ''//'' @ ''h''"
    by code_simp
  have v: "collapseSlashes ''http://h/a///b'' = ''http://h/a/b''"
    by code_simp
  show ?thesis
    using slashes_collapsed_after_non_colon
            [of "CHR ''a''" "''b''" "''http://h/''" 1 "''http://h''" "''http''" "CHR '':''" "''h''"]
      h v
    by simp
qed

section \<open>Properties of the path resolver\<close>

lemma traceBackwards_visited:
  "n \<in> fst st \<Longrightarrow> traceBackwards ns es n st = (False, st)"
  by (simp add: traceBackwards.simps[of ns es n st])

lemma traceBackwards_missing:
  "n \<notin> fst st \<Longrightarrow> find (\<lambda>x. node_id x = n) ns = None
     \<Longrightarrow> traceBackwards ns es n st = (False, insert n (fst st), snd st)"
  by (simp add: traceBackwards.simps[of ns es n st])

lemma traceBackwards_base:
  "n \<notin> fst st \<Longrightarrow> find (\<lambda>x. node_id x = n) ns = Some node
     \<Longrightarrow> block_type (data node) = BaseUrl
     \<Longrightarrow> traceBackwards ns es n st = (True, insert n (fst st), n # snd st)"
  by (simp add: traceBackwards.simps[of ns es n st])

lemma traceBackwards_inner:
  "n \<notin> fst st \<Longrightarrow> find (\<lambda>x. node_id x = n) ns = Some node
     \<Longrightarrow> block_type (data node) \<noteq> BaseUrl
     \<Longrightarrow> traceBackwards ns es n st =
           (if fst (traceIncoming ns es (filter (\<lambda>e. target e = n) es)
                      (insert n (fst st), n # snd st))
            then traceIncoming ns es (filter (\<lambda>e. target e = n) es)
                   (insert n (fst st), n # snd st)
            else (False,
                  fst (snd (traceIncoming ns es (filter (\<lambda>e. target e = n) es)
                              (insert n (fst st), n # snd st))),
                  tl (snd (snd (traceIncoming ns es (filter (\<lambda>e. target e = n) es)
                                  (insert n (fst st), n # snd st))))))"
  by (simp add: traceBackwards.simps[of ns es n st] Let_def)

lemma traceBackwardsUrl_visited:
  "n \<in> fst st \<Longrightarrow> traceBackwardsUrl ns es vars n st = (False, st)"
  by (simp add: traceBackwardsUrl.simps[of ns es vars n st])

lemma traceBackwardsUrl_missing:
  "n \<notin> fst st \<Longrightarrow> find (\<lambda>x. node_id x = n) ns = None
     \<Longrightarrow> traceBackwardsUrl ns es vars n st = (False, insert n (fst st), snd st)"
  by (simp add: traceBackwardsUrl.simps[of ns es vars n st])

lemma traceBackwardsUrl_base:
  "n \<notin> fst st \<Longrightarrow> find (\<lambda>x. node_id x = n) ns = Some node
     \<Longrightarrow> block_type (data node) = BaseUrl
     \<Longrightarrow> traceBackwardsUrl ns es vars n st
           = (True, insert n (fst st), block_value (data node) # snd st)"
  by (simp add: traceBackwardsUrl.simps[of ns es vars n st])

lemma traceBackwardsUrl_inner:
  "n \<notin> fst st \<Longrightarrow> find (\<lambda>x. node_id x = n) ns = Some node
     \<Longrightarrow> block_type (data node) \<noteq> BaseUrl
     \<Longrightarrow> traceBackwardsUrl ns es vars n st =
           traceIncomingUrl ns es vars (filter (\<lambda>e. target e = n) es)
             (insert n (fst st),
              if block_type (data node) = Resource
              then substituteParams vars (block_value (data node)) # snd st
              else snd st)"
  by (simp add: traceBackwardsUrl.simps[of ns es vars n st] Let_def)

lemma traceIncoming_Cons:
  "traceIncoming ns es (e # rest) st =
     (if fst (traceBackwards ns es (source e) st) then traceBackwards ns es (source e) st
      else traceIncoming ns es rest (snd (traceBackwards ns es (source e) st)))"
  by (simp add: Let_def)

lemma traceIncomingUrl_Cons:
  "traceIncomingUrl ns es vars (e # rest) st =
     (if fst (traceBackwardsUrl ns es vars (source e) st)
      then traceBackwardsUrl ns es vars (source e) st
      else traceIncomingUrl ns es vars rest (snd (traceBackwardsUrl ns es vars (source e) st)))"
  by (simp add: Let_def)

lemma trace_visited_mono:
  "fst st \<subseteq> fst (snd (traceBackwards ns es n st))"
  "fst st \<subseteq> fst (snd (traceIncoming ns es inc st))"
  by (rule trace_visited_mono_dom(1)[OF traceBackwards_total(1)])
     (rule trace_visited_mono_dom(2)[OF traceBackwards_total(2)])

lemma traceUrl_visited_mono:
  "fst st \<subseteq> fst (snd (traceBackwardsUrl ns es vars n st))"
  "fst st \<subseteq> fst (snd (traceIncomingUrl ns es vars inc st))"
  by (rule traceUrl_visited_mono_dom(1)[OF traceBackwardsUrl_total(1)])
     (rule traceUrl_visited_mono_dom(2)[OF traceBackwardsUrl_total(2)])

lemma trace_sound:
  "fst (traceBackwards ns es n st) \<Longrightarrow> reachesBase ns es n"
  "fst (traceIncoming ns es inc st) \<Longrightarrow> set inc \<subseteq> set es
     \<Longrightarrow> \<exists>e\<in>set inc. reachesBase ns es (source e)"
proof (induction ns es n st and ns es inc st rule: traceBackwards_traceIncoming.induct)
  case (1 nodes edges nodeId st)
  have nv: "nodeId \<notin> fst st"
    using 1(2) traceBackwards_visited[of nodeId st nodes edges] by auto
  obtain node where f: "find (\<lambda>n. node_id n = nodeId) nodes = Some node"
    using 1(2) nv traceBackwards_missing[of nodeId st nodes edges]
    by (cases "find (\<lambda>n. node_id n = nodeId) nodes") auto
  show ?case
  proof (cases "block_type (data node) = BaseUrl")
    case True
    then show ?thesis using f by (rule reachesBase.base[rotated])
  next
    case False
    let ?inc = "filter (\<lambda>e. target e = nodeId) edges"
    have "fst (traceIncoming nodes edges ?inc (insert nodeId (fst st), nodeId # snd st))"
      using 1(2) traceBackwards_inner[OF nv f False, of edges]
      by (auto split: if_splits)
    from 1(1)[OF nv refl f refl False this]
    obtain e where "e \<in> set ?inc" "reachesBase nodes edges (source e)" by auto
    then show ?thesis using f False by (auto intro: reachesBase.step)
  qed
next
  case (2 nodes edges st)
  then show ?case by simp
next
  case (3 nodes edges edge rest st)
  show ?case
  proof (cases "fst (traceBackwards nodes edges (source edge) st)")
    case True
    then show ?thesis using 3(1) by simp
  next
    case False
    then have "fst (traceIncoming nodes edges rest (snd (traceBackwards nodes edges (source edge) st)))"
      using 3(3) by (simp add: traceIncoming_Cons)
    from 3(2)[OF refl False this] 3(4) show ?thesis by auto
  qed
qed

lemma traceUrl_sound:
  "fst (traceBackwardsUrl ns es vars n st) \<Longrightarrow> reachesBase ns es n"
  "fst (traceIncomingUrl ns es vars inc st) \<Longrightarrow> set inc \<subseteq> set es
     \<Longrightarrow> \<exists>e\<in>set inc. reachesBase ns es (source e)"
proof (induction ns es vars n st and ns es vars inc st
        rule: traceBackwardsUrl_traceIncomingUrl.induct)
  case (1 nodes edges variables nodeId st)
  have nv: "nodeId \<notin> fst st"
    using 1(2) traceBackwardsUrl_visited[of nodeId st nodes edges variables] by auto
  obtain node where f: "find (\<lambda>n. node_id n = nodeId) nodes = Some node"
    using 1(2) nv traceBackwardsUrl_missing[of nodeId st nodes edges variables]
    by (cases "find (\<lambda>n. node_id n = nodeId) nodes") auto
  show ?case
  proof (cases "block_type (data node) = BaseUrl")
    case True
    then show ?thesis using f by (rule reachesBase.base[rotated])
  next
    case False
    let ?inc = "filter (\<lambda>e. target e = nodeId) edges"
    let ?path = "if block_type (data node) = Resource
                 then substituteParams variables (block_value (data node)) # snd st
                 else snd st"
    have "fst (traceIncomingUrl nodes edges variables ?inc (insert nodeId (fst st), ?path))"
      using 1(2) traceBackwardsUrl_inner[OF nv f False, of edges variables] by simp
    from 1(1)[OF nv refl f False refl this]
    obtain e where "e \<in> set ?inc" "reachesBase nodes edges (source e)" by auto
    then show ?thesis using f False by (auto intro: reachesBase.step)
  qed
next
  case (2 nodes edges variables st)
  then show ?case by simp
next
  case (3 nodes edges variables edge rest st)
  show ?case
  proof (cases "fst (traceBackwardsUrl nodes edges variables (source edge) st)")
    case True
    then show ?thesis using 3(1) by simp
  next
    case False
    then have "fst (traceIncomingUrl nodes edges variables rest
                      (snd (traceBackwardsUrl nodes edges variables (source edge) st)))"
      using 3(3) by (simp add: traceIncomingUrl_Cons)
    from 3(2)[OF refl False this] 3(4) show ?thesis by auto
  qed
qed

lemma trace_path_shape:
  "(fst (traceBackwards ns es n st) \<longrightarrow>
      (\<exists>pre. snd (snd (traceBackwards ns es n st)) = pre @ snd st \<and> distinct pre
         \<and> set pre \<subseteq> fst (snd (traceBackwards ns es n st)) - fst st))
   \<and> (\<not> fst (traceBackwards ns es n st) \<longrightarrow> snd (snd (traceBackwards ns es n st)) = snd st)"
  "(fst (traceIncoming ns es inc st) \<longrightarrow>
      (\<exists>pre. snd (snd (traceIncoming ns es inc st)) = pre @ snd st \<and> distinct pre
         \<and> set pre \<subseteq> fst (snd (traceIncoming ns es inc st)) - fst st))
   \<and> (\<not> fst (traceIncoming ns es inc st) \<longrightarrow> snd (snd (traceIncoming ns es inc st)) = snd st)"
proof (induction ns es n st and ns es inc st rule: traceBackwards_traceIncoming.induct)
  case (1 nodes edges nodeId st)
  show ?case
  proof (cases "nodeId \<in> fst st")
    case True
    then show ?thesis by (simp add: traceBackwards_visited)
  next
    case nv: False
    show ?thesis
    proof (cases "find (\<lambda>n. node_id n = nodeId) nodes")
      case None
      then show ?thesis using nv by (simp add: traceBackwards_missing)
    next
      case (Some node)
      show ?thesis
      proof (cases "block_type (data node) = BaseUrl")
        case True
        then show ?thesis using traceBackwards_base[OF nv Some True, of edges] nv
          by (auto intro: exI[of _ "[nodeId]"])
      next
        case False
        let ?r = "traceIncoming nodes edges (filter (\<lambda>e. target e = nodeId) edges)
                    (insert nodeId (fst st), nodeId # snd st)"
        have ih: "(fst ?r \<longrightarrow> (\<exists>pre. snd (snd ?r) = pre @ nodeId # snd st \<and> distinct pre
                     \<and> set pre \<subseteq> fst (snd ?r) - insert nodeId (fst st)))
                  \<and> (\<not> fst ?r \<longrightarrow> snd (snd ?r) = nodeId # snd st)"
          using 1[OF nv refl Some refl False] by simp
        have m: "insert nodeId (fst st) \<subseteq> fst (snd ?r)"
          using trace_visited_mono(2)[of "(insert nodeId (fst st), nodeId # snd st)"] by simp
        have eq: "traceBackwards nodes edges nodeId st
                    = (if fst ?r then ?r else (False, fst (snd ?r), tl (snd (snd ?r))))"
          using traceBackwards_inner[OF nv Some False, of edges] .
        show ?thesis
        proof (cases "fst ?r")
          case True
          then obtain pre where p: "snd (snd ?r) = pre @ nodeId # snd st" "distinct pre"
            "set pre \<subseteq> fst (snd ?r) - insert nodeId (fst st)"
            using ih by blast
          have "snd (snd ?r) = (pre @ [nodeId]) @ snd st" using p(1) by simp
          moreover have "distinct (pre @ [nodeId])" using p(2,3) by auto
          moreover have "set (pre @ [nodeId]) \<subseteq> fst (snd ?r) - fst st" using p(3) m nv by auto
          ultimately show ?thesis using True eq by (simp only: if_True) blast
        next
          case False
          then show ?thesis using ih eq by simp
        qed
      qed
    qed
  qed
next
  case (2 nodes edges st)
  then show ?case by simp
next
  case (3 nodes edges edge rest st)
  let ?r1 = "traceBackwards nodes edges (source edge) st"
  let ?r2 = "traceIncoming nodes edges rest (snd ?r1)"
  show ?case
  proof (cases "fst ?r1")
    case True
    then show ?thesis using 3(1) by (simp add: traceIncoming_Cons)
  next
    case False
    have p1: "snd (snd ?r1) = snd st" using 3(1) False by simp
    have m1: "fst st \<subseteq> fst (snd ?r1)" by (rule trace_visited_mono(1))
    have ih: "(fst ?r2 \<longrightarrow> (\<exists>pre. snd (snd ?r2) = pre @ snd (snd ?r1) \<and> distinct pre
                     \<and> set pre \<subseteq> fst (snd ?r2) - fst (snd ?r1)))
              \<and> (\<not> fst ?r2 \<longrightarrow> snd (snd ?r2) = snd (snd ?r1))"
      using 3(2)[OF refl False] .
    have eq: "traceIncoming nodes edges (edge # rest) st = ?r2"
      using False by (simp add: traceIncoming_Cons)
    show ?thesis
    proof (cases "fst ?r2")
      case True
      then obtain pre where p: "snd (snd ?r2) = pre @ snd (snd ?r1)" "distinct pre"
        "set pre \<subseteq> fst (snd ?r2) - fst (snd ?r1)" using ih by blast
      have "set pre \<subseteq> fst (snd ?r2) - fst st" using p(3) m1 by auto
      then show ?thesis using True p p1 eq by (simp only:) auto
    next
      case False
      then show ?thesis using ih p1 eq by simp
    qed
  qed
qed

lemma reachesBase_needs_base:
  "reachesBase ns es i \<Longrightarrow> \<exists>n\<in>set ns. block_type (data n) = BaseUrl"
  by (induction rule: reachesBase.induct) (auto simp: find_Some_iff)

text \<open>
  Claim C3. The recursion of both walks is well-founded from every argument (the domain
  predicate of a function holds of the arguments from which its evaluation terminates); that
  is the termination of \<^verbatim>\<open>computeActivePathNodes\<close> and of \<^verbatim>\<open>getComputedUrl\<close>, whose
  only loops are these walks. An id that is already in the visited set is left at once with
  the state unchanged, an id that is entered is in the visited set afterwards, the visited set
  only grows, and the resolved path holds no id twice.
\<close>

theorem resolution_terminates:
  "traceBackwards_traceIncoming_dom (Inl (ns, es, t, st))
   \<and> traceBackwardsUrl_traceIncomingUrl_dom (Inl (ns, es, vars, t, st))
   \<and> traceBackwards ns es t (insert t V, p) = (False, insert t V, p)
   \<and> traceBackwardsUrl ns es vars t (insert t V, p) = (False, insert t V, p)
   \<and> insert t (fst st) \<subseteq> fst (snd (traceBackwards ns es t st))
   \<and> insert t (fst st) \<subseteq> fst (snd (traceBackwardsUrl ns es vars t st))
   \<and> distinct (computeActivePathNodes a ns es)"
proof -
  have d1: "traceBackwards_traceIncoming_dom (Inl (ns, es, t, st))"
    by (rule traceBackwards_total(1))
  have d2: "traceBackwardsUrl_traceIncomingUrl_dom (Inl (ns, es, vars, t, st))"
    by (rule traceBackwardsUrl_total(1))
  have v1: "traceBackwards ns es t (insert t V, p) = (False, insert t V, p)"
    by (simp add: traceBackwards_visited)
  have v2: "traceBackwardsUrl ns es vars t (insert t V, p) = (False, insert t V, p)"
    by (simp add: traceBackwardsUrl_visited)
  have e1: "t \<in> fst (snd (traceBackwards ns es t st))"
  proof (cases "t \<in> fst st")
    case True
    then show ?thesis using trace_visited_mono(1)[of st ns es t] by auto
  next
    case False
    have "insert t (fst st) \<subseteq> fst (snd (traceBackwards ns es t st))"
    proof (cases "find (\<lambda>x. node_id x = t) ns")
      case None
      then show ?thesis using False by (simp add: traceBackwards_missing)
    next
      case (Some node)
      show ?thesis
      proof (cases "block_type (data node) = BaseUrl")
        case True
        then show ?thesis using traceBackwards_base[OF False Some True, of es] by simp
      next
        case nb: False
        show ?thesis
          using traceBackwards_inner[OF False Some nb, of es]
            trace_visited_mono(2)[of "(insert t (fst st), t # snd st)" ns es
              "filter (\<lambda>e. target e = t) es"]
          by (auto split: if_splits)
      qed
    qed
    then show ?thesis by simp
  qed
  have e2: "t \<in> fst (snd (traceBackwardsUrl ns es vars t st))"
  proof (cases "t \<in> fst st")
    case True
    then show ?thesis using traceUrl_visited_mono(1)[of st ns es vars t] by auto
  next
    case False
    have "insert t (fst st) \<subseteq> fst (snd (traceBackwardsUrl ns es vars t st))"
    proof (cases "find (\<lambda>x. node_id x = t) ns")
      case None
      then show ?thesis using False by (simp add: traceBackwardsUrl_missing)
    next
      case (Some node)
      show ?thesis
      proof (cases "block_type (data node) = BaseUrl")
        case True
        then show ?thesis using traceBackwardsUrl_base[OF False Some True, of es vars] by simp
      next
        case nb: False
        show ?thesis
          using traceBackwardsUrl_inner[OF False Some nb, of es vars]
            traceUrl_visited_mono(2)[of "(insert t (fst st),
                if block_type (data node) = Resource
                then substituteParams vars (block_value (data node)) # snd st else snd st)"
              ns es vars "filter (\<lambda>e. target e = t) es"]
          by (auto split: if_splits)
      qed
    qed
    then show ?thesis by simp
  qed
  have dist: "distinct (computeActivePathNodes a ns es)"
  proof (cases a)
    case None
    then show ?thesis by (simp add: computeActivePathNodes_def)
  next
    case (Some i)
    show ?thesis
      using trace_path_shape(1)[of ns es i "({}, [])"] Some
      by (cases "fst (traceBackwards ns es i ({}, []))")
         (auto simp: computeActivePathNodes_def)
  qed
  show ?thesis
    using d1 d2 v1 v2 e1 e2 dist trace_visited_mono(1)[of st ns es t]
      traceUrl_visited_mono(1)[of st ns es vars t]
    by simp
qed

theorem resolution_terminates_witness:
  "traceBackwards_traceIncoming_dom
     (Inl (nodes cyclicState, edges cyclicState, ''m'', ({}, [])))
   \<and> traceBackwardsUrl_traceIncomingUrl_dom
     (Inl (nodes cyclicState, edges cyclicState, Map.empty, ''m'', ({}, [])))
   \<and> distinct (computeActivePathNodes (Some ''m'') (nodes cyclicState) (edges cyclicState))"
  using resolution_terminates
          [of "nodes cyclicState" "edges cyclicState" "''m''" "({}, [])" Map.empty "{}" "[]"
              "Some ''m''"]
  by simp

text \<open>
  Claim C5. When no base URL node is reachable by the backward walk from the active id (the
  id of no node, a cycle without a base URL node, or no active id at all),
  \<^verbatim>\<open>computeActivePathNodes\<close> returns the empty list and \<^verbatim>\<open>getComputedUrl\<close> returns
  \<^verbatim>\<open>null\<close>. Both are total functions with no error branch: the source has no
  \<^verbatim>\<open>throw\<close> on these paths.
\<close>

theorem unresolvable_path_gives_empty_and_null:
  assumes "\<forall>t. activePathId s = Some t \<longrightarrow> \<not> reachesBase (nodes s) (edges s) t"
  shows "computeActivePathNodes (activePathId s) (nodes s) (edges s) = []
         \<and> getComputedUrl s = None"
proof (cases "activePathId s")
  case None
  then show ?thesis by (simp add: computeActivePathNodes_def getComputedUrl_def)
next
  case (Some t)
  then have nr: "\<not> reachesBase (nodes s) (edges s) t" using assms by simp
  have f1: "\<not> fst (traceBackwards (nodes s) (edges s) t ({}, []))"
    using nr trace_sound(1) by blast
  then have p: "snd (snd (traceBackwards (nodes s) (edges s) t ({}, []))) = []"
    using trace_path_shape(1)[of "nodes s" "edges s" t "({}, [])"] by simp
  have f2: "\<not> fst (traceBackwardsUrl (nodes s) (edges s) (variables s) t ({}, []))"
    using nr traceUrl_sound(1) by blast
  show ?thesis using Some p f2
    by (simp add: computeActivePathNodes_def getComputedUrl_def Let_def split: option.splits)
qed

theorem unresolvable_path_gives_empty_and_null_witness:
  "computeActivePathNodes (activePathId cyclicState) (nodes cyclicState) (edges cyclicState) = []
   \<and> getComputedUrl cyclicState = None
   \<and> computeActivePathNodes (activePathId (cyclicState\<lparr>activePathId := Some ''gone''\<rparr>))
        (nodes (cyclicState\<lparr>activePathId := Some ''gone''\<rparr>))
        (edges (cyclicState\<lparr>activePathId := Some ''gone''\<rparr>)) = []
   \<and> getComputedUrl (cyclicState\<lparr>activePathId := Some ''gone''\<rparr>) = None"
proof -
  have nb: "\<not> (\<exists>n\<in>set (nodes cyclicState). block_type (data n) = BaseUrl)"
    by (simp add: cyclicState_def mkBlock_def)
  have h: "\<forall>t. activePathId (cyclicState\<lparr>activePathId := a\<rparr>) = Some t
             \<longrightarrow> \<not> reachesBase (nodes (cyclicState\<lparr>activePathId := a\<rparr>))
                    (edges (cyclicState\<lparr>activePathId := a\<rparr>)) t" for a
    using nb reachesBase_needs_base by fastforce
  have c: "cyclicState\<lparr>activePathId := Some ''m''\<rparr> = cyclicState"
    by (simp add: cyclicState_def)
  show ?thesis
    using unresolvable_path_gives_empty_and_null[OF h[of "Some ''m''"]]
      unresolvable_path_gives_empty_and_null[OF h[of "Some ''gone''"]] c
    by simp
qed

text \<open>
  Claim C1 at a method node with two incoming edges, the first from a resource without
  ancestors, the second from a resource below the base URL. The resolved path is base,
  \<^verbatim>\<open>users\<close>, method; \<^verbatim>\<open>getComputedUrl\<close> keeps the segment of the failed branch,
  the computation of \<^verbatim>\<open>RequestNode.tsx\<close> does not.
\<close>

theorem failed_branch_segment_stays_in_url:
  "computeActivePathNodes (activePathId branchState) (nodes branchState) (edges branchState)
     = [''b'', ''r2'', ''m'']
   \<and> getComputedUrl branchState = Some ''http://localhost:3000/users/orphan''
   \<and> requestNodeUrl branchState = Some ''http://localhost:3000/users''"
  by code_simp

theorem failed_branch_segment_stays_in_url_witness:
  "getComputedUrl branchState = Some ''http://localhost:3000/users/orphan''
   \<and> getComputedUrl branchState \<noteq> requestNodeUrl branchState"
  using failed_branch_segment_stays_in_url by simp

section \<open>The active-path projection\<close>

lemma trace_graph_cong:
  assumes "\<forall>i. i \<notin> X \<longrightarrow>
             map_option (\<lambda>n. block_type (data n)) (find (\<lambda>n. node_id n = i) ns')
               = map_option (\<lambda>n. block_type (data n)) (find (\<lambda>n. node_id n = i) ns)"
    and "\<forall>i. i \<notin> X \<longrightarrow> filter (\<lambda>e. target e = i) es' = filter (\<lambda>e. target e = i) es"
    and "\<forall>e\<in>set es. source e \<notin> X"
  shows "n \<notin> X \<Longrightarrow> traceBackwards ns' es' n st = traceBackwards ns es n st"
    and "set inc \<subseteq> set es \<Longrightarrow> traceIncoming ns' es' inc st = traceIncoming ns es inc st"
  using assms
proof (induction ns es n st and ns es inc st rule: traceBackwards_traceIncoming.induct)
  case (1 nodes edges nodeId st)
  note A = 1(3)[rule_format, OF 1(2)] and B = 1(4)[rule_format, OF 1(2)]
  show ?case
  proof (cases "nodeId \<in> fst st")
    case True
    then show ?thesis by (simp add: traceBackwards_visited)
  next
    case nv: False
    show ?thesis
    proof (cases "find (\<lambda>n. node_id n = nodeId) nodes")
      case None
      then have "find (\<lambda>n. node_id n = nodeId) ns' = None" using A by simp
      then show ?thesis using None nv by (simp add: traceBackwards_missing)
    next
      case (Some node)
      then obtain node' where n': "find (\<lambda>n. node_id n = nodeId) ns' = Some node'"
        and ty: "block_type (data node') = block_type (data node)"
        using A by (cases "find (\<lambda>n. node_id n = nodeId) ns'") auto
      show ?thesis
      proof (cases "block_type (data node) = BaseUrl")
        case True
        then show ?thesis
          using traceBackwards_base[OF nv Some True, of edges]
            traceBackwards_base[OF nv n', of es'] ty by simp
      next
        case False
        have nb': "block_type (data node') \<noteq> BaseUrl" using False ty by simp
        have "traceIncoming ns' es' (filter (\<lambda>e. target e = nodeId) edges)
                (insert nodeId (fst st), nodeId # snd st)
              = traceIncoming nodes edges (filter (\<lambda>e. target e = nodeId) edges)
                (insert nodeId (fst st), nodeId # snd st)"
          using 1(1)[OF nv refl Some refl False _ 1(3) 1(4) 1(5)] by simp
        then show ?thesis
          using traceBackwards_inner[OF nv Some False, of edges]
            traceBackwards_inner[OF nv n' nb', of es'] B by simp
      qed
    qed
  qed
next
  case (2 nodes edges st)
  then show ?case by simp
next
  case (3 nodes edges edge rest st)
  have sx: "source edge \<notin> X" using 3(3,6) by auto
  have e1: "traceBackwards ns' es' (source edge) st = traceBackwards nodes edges (source edge) st"
    using 3(1)[OF sx 3(4) 3(5) 3(6)] .
  show ?case
  proof (cases "fst (traceBackwards nodes edges (source edge) st)")
    case True
    then show ?thesis using e1 by (simp add: traceIncoming_Cons)
  next
    case False
    have "traceIncoming ns' es' rest (snd (traceBackwards nodes edges (source edge) st))
          = traceIncoming nodes edges rest (snd (traceBackwards nodes edges (source edge) st))"
      using 3(2)[OF refl False _ 3(4) 3(5) 3(6)] 3(3) by simp
    then show ?thesis using False e1 by (simp add: traceIncoming_Cons)
  qed
qed

lemma computeActivePathNodes_cong:
  assumes "\<forall>i. i \<notin> X \<longrightarrow>
             map_option (\<lambda>n. block_type (data n)) (find (\<lambda>n. node_id n = i) ns')
               = map_option (\<lambda>n. block_type (data n)) (find (\<lambda>n. node_id n = i) ns)"
    and "\<forall>i. i \<notin> X \<longrightarrow> filter (\<lambda>e. target e = i) es' = filter (\<lambda>e. target e = i) es"
    and "\<forall>e\<in>set es. source e \<notin> X"
    and "\<forall>t. a = Some t \<longrightarrow> t \<notin> X"
  shows "computeActivePathNodes a ns' es' = computeActivePathNodes a ns es"
proof (cases a)
  case None
  then show ?thesis by (simp add: computeActivePathNodes_def)
next
  case (Some t)
  then have "t \<notin> X" using assms(4) by simp
  from trace_graph_cong(1)[OF assms(1,2,3) this]
  show ?thesis using Some by (simp add: computeActivePathNodes_def)
qed

lemma find_map_nodes:
  "(\<And>n. node_id (f n) = node_id n) \<Longrightarrow>
     find (\<lambda>n. node_id n = i) (map f ns) = map_option f (find (\<lambda>n. node_id n = i) ns)"
  by (induction ns) auto

lemma compute_map_nodes:
  assumes "\<And>n. node_id (f n) = node_id n"
    and "\<And>n. block_type (data (f n)) = block_type (data n)"
  shows "computeActivePathNodes a (map f ns) es = computeActivePathNodes a ns es"
proof (rule computeActivePathNodes_cong[where X = "{}"])
  show "\<forall>i. i \<notin> {} \<longrightarrow>
          map_option (\<lambda>n. block_type (data n)) (find (\<lambda>n. node_id n = i) (map f ns))
            = map_option (\<lambda>n. block_type (data n)) (find (\<lambda>n. node_id n = i) ns)"
    using assms by (simp add: find_map_nodes option.map_comp comp_def)
qed simp_all

lemma find_append_other:
  "node_id new \<noteq> i \<Longrightarrow>
     find (\<lambda>n. node_id n = i) (ns @ [new]) = find (\<lambda>n. node_id n = i) ns"
  by (induction ns) auto

lemma compute_add_fresh:
  assumes "a \<noteq> Some (node_id new)" "node_id new \<notin> source ` set es"
    and "\<forall>e\<in>set extra. target e = node_id new"
  shows "computeActivePathNodes a (ns @ [new]) (es @ extra) = computeActivePathNodes a ns es"
proof (rule computeActivePathNodes_cong[where X = "{node_id new}"])
  show "\<forall>i. i \<notin> {node_id new} \<longrightarrow>
          map_option (\<lambda>n. block_type (data n)) (find (\<lambda>n. node_id n = i) (ns @ [new]))
            = map_option (\<lambda>n. block_type (data n)) (find (\<lambda>n. node_id n = i) ns)"
    by (simp add: find_append_other)
  show "\<forall>i. i \<notin> {node_id new} \<longrightarrow>
          filter (\<lambda>e. target e = i) (es @ extra) = filter (\<lambda>e. target e = i) es"
    using assms(3) by (auto simp: filter_empty_conv)
  show "\<forall>e\<in>set es. source e \<notin> {node_id new}"
  proof
    fix e
    assume "e \<in> set es"
    then have "source e \<in> source ` set es" by (rule imageI)
    then show "source e \<notin> {node_id new}" using assms(2) by auto
  qed
  show "\<forall>t. a = Some t \<longrightarrow> t \<notin> {node_id new}" using assms(1) by auto
qed

lemma step_projectionInv:
  "projectionInv s \<Longrightarrow> opFresh op s \<Longrightarrow> projectionInv (step rf op s)"
proof (cases op)
  case (AddNode newId t v m)
  assume "projectionInv s" "opFresh op s"
  then show ?thesis
    using AddNode
      compute_add_fresh[of "activePathId s" "\<lparr>node_id = newId, data = mkBlock t v m\<rparr>"
        "edges s" "[]" "nodes s"]
    by (simp add: projectionInv_def addNode_def freshId_def)
next
  case (EnsureRequestNode methodNodeId newNodeId newEdgeId)
  assume "projectionInv s" "opFresh op s"
  then show ?thesis
    using EnsureRequestNode
      compute_add_fresh[of "activePathId s"
        "\<lparr>node_id = newNodeId,
          data = (mkBlock Request [] None)
            \<lparr>headers := Some [\<lparr>field_key = ''Content-Type'',
                                field_value = ''application/json''\<rparr>]\<rparr>\<rparr>"
        "edges s" "[\<lparr>edge_id = newEdgeId, source = methodNodeId, target = newNodeId\<rparr>]"
        "nodes s"]
    by (simp add: projectionInv_def ensureRequestNode_def freshId_def Let_def
          split: option.splits)
next
  case (UpdateNodeValue i v)
  assume "projectionInv s"
  then show ?thesis using UpdateNodeValue
    by (simp add: projectionInv_def updateNodeValue_def compute_map_nodes)
next
  case (UpdateNodeBodyFields i fs)
  assume "projectionInv s"
  then show ?thesis using UpdateNodeBodyFields
    by (simp add: projectionInv_def updateNodeBodyFields_def compute_map_nodes)
next
  case (UpdateNodeHeaders i hs)
  assume "projectionInv s"
  then show ?thesis using UpdateNodeHeaders
    by (simp add: projectionInv_def updateNodeHeaders_def compute_map_nodes)
next
  case (SetResponse r url m newId now)
  assume "projectionInv s"
  then show ?thesis using SetResponse
    by (auto simp: projectionInv_def setResponse_def Let_def split: option.splits)
next
  case (AddBodyHistory m url fs newId now)
  assume "projectionInv s"
  then show ?thesis using AddBodyHistory
    by (simp add: projectionInv_def addBodyHistory_def Let_def)
qed (simp_all add: projectionInv_def onNodesChange_def onEdgesChange_def onConnect_def
       setActivePath_def setRequest_def clearResponse_def clearHistory_def
       removeHistoryItem_def removeBodyHistoryItem_def setVariable_def resetToDefault_def
       createDefaultState_def computeActivePathNodes_def Let_def)

lemma run_projectionInv:
  "projectionInv s \<Longrightarrow> runFresh rf ops s \<Longrightarrow> projectionInv (run rf ops s)"
  by (induction ops arbitrary: s) (auto simp: step_projectionInv)

text \<open>
  Claim C2. The default state has the stored projection equal, as a set, to the recomputed
  resolution; every store operation keeps it so, given that the node id it creates is fresh;
  so it holds after every operation of a run from a state where it holds. The operations that
  recompute (\<^verbatim>\<open>onNodesChange\<close>, \<^verbatim>\<open>onEdgesChange\<close>, \<^verbatim>\<open>onConnect\<close>,
  \<^verbatim>\<open>setActivePath\<close>) establish it from any state. The other operations do not
  recompute: they change no node id, no block type, no edge into a node of the walk and not
  the active id, and the resolution reads nothing else.
\<close>

theorem projection_equals_resolution:
  "projectionInv createDefaultState
   \<and> (projectionInv s \<and> opFresh op s \<longrightarrow> projectionInv (step rf op s))
   \<and> (projectionInv s \<and> runFresh rf ops s \<longrightarrow> projectionInv (run rf ops s))
   \<and> projectionInv (onNodesChange rf nodeChanges s')
   \<and> projectionInv (onEdgesChange rf edgeChanges s')
   \<and> projectionInv (onConnect rf connection newId s')
   \<and> projectionInv (setActivePath a s')"
  using step_projectionInv[of s op rf] run_projectionInv[of s rf ops]
  by (simp add: projectionInv_def createDefaultState_def computeActivePathNodes_def
        onNodesChange_def onEdgesChange_def onConnect_def setActivePath_def Let_def)

theorem projection_equals_resolution_witness:
  "projectionInv (step noChanges (AddNode ''n1'' Resource ''users'' None)
      (setActivePath (Some ''default-login-method'') createDefaultState))
   \<and> projectionInv (run noChanges editingSession createDefaultState)
   \<and> activePathNodes (run noChanges editingSession createDefaultState)
       = [''default-base-url'', ''default-auth-resource'', ''default-login-resource'',
          ''default-login-method'']"
proof -
  let ?s0 = "setActivePath (Some ''default-login-method'') createDefaultState"
  have i0: "projectionInv createDefaultState \<and> projectionInv ?s0"
    using projection_equals_resolution
            [of ?s0 "AddNode ''n1'' Resource ''users'' None" noChanges editingSession
                "()" createDefaultState "()" "()" "''x''" "Some ''default-login-method''"]
    by simp
  have f1: "opFresh (AddNode ''n1'' Resource ''users'' None :: (unit, unit, unit) StoreOp) ?s0"
    by code_simp
  have f2: "runFresh noChanges editingSession createDefaultState"
    by code_simp
  have v: "activePathNodes (run noChanges editingSession createDefaultState)
       = [''default-base-url'', ''default-auth-resource'', ''default-login-resource'',
          ''default-login-method'']"
    by code_simp
  show ?thesis
    using projection_equals_resolution
            [of ?s0 "AddNode ''n1'' Resource ''users'' None" noChanges editingSession
                "()" createDefaultState "()" "()" "''x''" "Some ''default-login-method''"]
      projection_equals_resolution
            [of createDefaultState "AddNode ''n1'' Resource ''users'' None" noChanges
                editingSession "()" createDefaultState "()" "()" "''x''"
                "Some ''default-login-method''"]
      i0 f1 f2 v
    by simp
qed

section \<open>A valid branch and a cyclic branch\<close>

lemma singleParents_snoc:
  "singleParents es p (xs @ [x]) =
     (singleParents es p xs \<and> map source (filter (\<lambda>e. target e = x) es) = [last (p # xs)])"
  by (induction xs arbitrary: p) auto

lemma traceIncoming_single:
  "map source inc = [q] \<Longrightarrow>
     traceIncoming ns es inc st =
       (if fst (traceBackwards ns es q st) then traceBackwards ns es q st
        else (False, snd (traceBackwards ns es q st)))"
  by (cases inc) (auto simp: traceIncoming_Cons)

lemma traceIncoming_pair:
  "map source inc = [q1, q2] \<Longrightarrow>
     traceIncoming ns es inc st =
       (if fst (traceBackwards ns es q1 st) then traceBackwards ns es q1 st
        else if fst (traceBackwards ns es q2 (snd (traceBackwards ns es q1 st)))
        then traceBackwards ns es q2 (snd (traceBackwards ns es q1 st))
        else (False, snd (traceBackwards ns es q2 (snd (traceBackwards ns es q1 st)))))"
proof -
  assume a: "map source inc = [q1, q2]"
  then obtain e1 e2 where "inc = [e1, e2]" "source e1 = q1" "source e2 = q2"
    by (cases inc; cases "tl inc") auto
  then show ?thesis by (simp add: traceIncoming_Cons)
qed

lemma chain_walk:
  assumes "\<forall>i\<in>set (b # rs). \<exists>nd. find (\<lambda>n. node_id n = i) ns = Some nd
             \<and> (block_type (data nd) = BaseUrl) = (i = b)"
    and "distinct (b # rs)"
    and "singleParents es b rs"
    and "V \<inter> set (b # rs) = {}"
  shows "traceBackwards ns es (last (b # rs)) (V, p) = (True, V \<union> set (b # rs), b # rs @ p)"
  using assms
proof (induction rs arbitrary: V p rule: rev_induct)
  case Nil
  then obtain nd where "find (\<lambda>n. node_id n = b) ns = Some nd" "block_type (data nd) = BaseUrl"
    by auto
  moreover have "b \<notin> fst (V, p)" using Nil by simp
  ultimately show ?case
    using traceBackwards_base[of b "(V, p)" ns nd es] by simp
next
  case (snoc r rs)
  obtain nd where f: "find (\<lambda>n. node_id n = r) ns = Some nd"
    and nb: "block_type (data nd) \<noteq> BaseUrl"
    using snoc(2,3) by auto
  have nv: "r \<notin> fst (V, p)" using snoc(5) by auto
  have sp: "singleParents es b rs"
    and inc: "map source (filter (\<lambda>e. target e = r) es) = [last (b # rs)]"
    using snoc(4) by (simp_all add: singleParents_snoc)
  have ih: "traceBackwards ns es (last (b # rs)) (insert r V, r # p)
              = (True, insert r V \<union> set (b # rs), b # rs @ r # p)"
  proof (rule snoc(1)[OF _ _ sp])
    show "\<forall>i\<in>set (b # rs). \<exists>nd. find (\<lambda>n. node_id n = i) ns = Some nd
             \<and> (block_type (data nd) = BaseUrl) = (i = b)"
      using snoc(2) by simp
    show "distinct (b # rs)" using snoc(3) by simp
    show "insert r V \<inter> set (b # rs) = {}" using snoc(3,5) by auto
  qed
  have "traceIncoming ns es (filter (\<lambda>e. target e = r) es) (insert r V, r # p)
          = (True, insert r V \<union> set (b # rs), b # rs @ r # p)"
    using traceIncoming_single[OF inc, of ns es "(insert r V, r # p)"] ih by simp
  then have "traceBackwards ns es r (V, p) = (True, insert r V \<union> set (b # rs), b # rs @ r # p)"
    using traceBackwards_inner[OF nv f nb, of es] by simp
  then show ?case by (simp add: insert_commute Un_commute) 
qed

lemma cycle_walk:
  assumes "\<forall>i\<in>set cyc. \<exists>nd. find (\<lambda>n. node_id n = i) ns = Some nd
             \<and> block_type (data nd) \<noteq> BaseUrl"
    and "distinct cyc"
    and "singleParents es t cyc"
    and "t \<in> V"
    and "V \<inter> set cyc = {}"
  shows "traceBackwards ns es (last (t # cyc)) (V, p) = (False, V \<union> set cyc, p)"
  using assms
proof (induction cyc arbitrary: V p rule: rev_induct)
  case Nil
  then show ?case by (simp add: traceBackwards_visited)
next
  case (snoc c cyc)
  obtain nd where f: "find (\<lambda>n. node_id n = c) ns = Some nd"
    and nb: "block_type (data nd) \<noteq> BaseUrl"
    using snoc(2) by auto
  have nv: "c \<notin> fst (V, p)" using snoc(6) by auto
  have sp: "singleParents es t cyc"
    and inc: "map source (filter (\<lambda>e. target e = c) es) = [last (t # cyc)]"
    using snoc(4) by (simp_all add: singleParents_snoc)
  have ih: "traceBackwards ns es (last (t # cyc)) (insert c V, c # p)
              = (False, insert c V \<union> set cyc, c # p)"
  proof (rule snoc(1)[OF _ _ sp])
    show "\<forall>i\<in>set cyc. \<exists>nd. find (\<lambda>n. node_id n = i) ns = Some nd
             \<and> block_type (data nd) \<noteq> BaseUrl"
      using snoc(2) by simp
    show "distinct cyc" using snoc(3) by simp
    show "t \<in> insert c V" using snoc(5) by simp
    show "insert c V \<inter> set cyc = {}" using snoc(3,6) by auto
  qed
  have "traceIncoming ns es (filter (\<lambda>e. target e = c) es) (insert c V, c # p)
          = (False, insert c V \<union> set cyc, c # p)"
    using traceIncoming_single[OF inc, of ns es "(insert c V, c # p)"] ih by simp
  then have "traceBackwards ns es c (V, p) = (False, insert c V \<union> set cyc, p)"
    using traceBackwards_inner[OF nv f nb, of es] by simp
  then show ?case by (simp add: insert_commute Un_commute)
qed

text \<open>
  Claim C4. The target \<open>t\<close> has two incoming edges. One comes from the end of a chain
  \<open>b\<close>, \<open>rs\<close> that starts at the base URL node \<open>b\<close>, each node of it the only parent of
  the next. The other closes a cycle: it comes from the end of \<open>cyc\<close>, whose first node has
  \<open>t\<close> as its only parent (with \<open>cyc\<close> empty the edge is a loop at \<open>t\<close>). The ids are
  distinct and are ids of nodes, of which only \<open>b\<close> is a base URL node. Then, in whichever
  order the two edges stand, \<^verbatim>\<open>computeActivePathNodes\<close> returns \<open>b\<close>, \<open>rs\<close>, \<open>t\<close>,
  and no id of the cycle is in the result. That it returns at all is the termination proved
  for the walk.
\<close>

theorem valid_branch_chosen_over_cycle:
  assumes "t \<noteq> []"
    and "distinct (b # rs @ cyc @ [t])"
    and "\<forall>i\<in>set (b # rs @ cyc @ [t]). \<exists>nd. find (\<lambda>n. node_id n = i) ns = Some nd
           \<and> (block_type (data nd) = BaseUrl) = (i = b)"
    and "singleParents es b rs"
    and "singleParents es t cyc"
    and "map source (filter (\<lambda>e. target e = t) es) = [last (t # cyc), last (b # rs)]
         \<or> map source (filter (\<lambda>e. target e = t) es) = [last (b # rs), last (t # cyc)]"
  shows "computeActivePathNodes (Some t) ns es = b # rs @ [t]
         \<and> set cyc \<inter> set (computeActivePathNodes (Some t) ns es) = {}"
proof -
  obtain nd where f: "find (\<lambda>n. node_id n = t) ns = Some nd"
    and nb: "block_type (data nd) \<noteq> BaseUrl"
    using assms(2,3) by auto
  have nv: "t \<notin> fst ({}, [])" by simp
  have fc: "\<forall>i\<in>set (b # rs). \<exists>nd. find (\<lambda>n. node_id n = i) ns = Some nd
             \<and> (block_type (data nd) = BaseUrl) = (i = b)"
    using assms(3) by simp
  have dc: "distinct (b # rs)" using assms(2) by simp
  have fy: "\<forall>i\<in>set cyc. \<exists>nd. find (\<lambda>n. node_id n = i) ns = Some nd
             \<and> block_type (data nd) \<noteq> BaseUrl"
  proof
    fix i assume i: "i \<in> set cyc"
    then have "i \<noteq> b" using assms(2) by auto
    moreover have "\<exists>nd. find (\<lambda>n. node_id n = i) ns = Some nd
             \<and> (block_type (data nd) = BaseUrl) = (i = b)"
      using assms(3) i by simp
    ultimately show "\<exists>nd. find (\<lambda>n. node_id n = i) ns = Some nd
             \<and> block_type (data nd) \<noteq> BaseUrl" by auto
  qed
  have dy: "distinct cyc" using assms(2) by simp
  let ?inc = "filter (\<lambda>e. target e = t) es"
  let ?st = "(insert t {}, [t])"
  have cw: "traceBackwards ns es (last (t # cyc)) ({t}, [t]) = (False, {t} \<union> set cyc, [t])"
    using cycle_walk[OF fy dy assms(5), of "{t}" "[t]"] assms(2) by simp
  have dj1: "{t} \<inter> set (b # rs) = {}" using assms(2) by auto
  have dj2: "({t} \<union> set cyc) \<inter> set (b # rs) = {}" using assms(2) by auto
  have vw1: "traceBackwards ns es (last (b # rs)) ({t}, [t])
               = (True, {t} \<union> set (b # rs), b # rs @ [t])"
    by (rule chain_walk[OF fc dc assms(4) dj1])
  have vw2: "traceBackwards ns es (last (b # rs)) ({t} \<union> set cyc, [t])
               = (True, ({t} \<union> set cyc) \<union> set (b # rs), b # rs @ [t])"
    by (rule chain_walk[OF fc dc assms(4) dj2])
  have "snd (snd (traceIncoming ns es ?inc ({t}, [t]))) = b # rs @ [t]
        \<and> fst (traceIncoming ns es ?inc ({t}, [t]))"
    using assms(6)
  proof
    assume "map source ?inc = [last (t # cyc), last (b # rs)]"
    from traceIncoming_pair[OF this, of ns es "({t}, [t])"] show ?thesis
      using cw vw2 by simp
  next
    assume "map source ?inc = [last (b # rs), last (t # cyc)]"
    from traceIncoming_pair[OF this, of ns es "({t}, [t])"] show ?thesis
      using vw1 by simp
  qed
  then have "snd (snd (traceBackwards ns es t ({}, []))) = b # rs @ [t]"
    using traceBackwards_inner[OF nv f nb, of es] by simp
  then have r: "computeActivePathNodes (Some t) ns es = b # rs @ [t]"
    using assms(1) by (simp add: computeActivePathNodes_def)
  moreover have "set cyc \<inter> set (b # rs @ [t]) = {}" using assms(2) by auto
  ultimately show ?thesis by simp
qed

theorem valid_branch_chosen_over_cycle_witness:
  "computeActivePathNodes (Some ''t'') (nodes scenarioE) (edges scenarioE) = [''b'', ''r'', ''t'']
   \<and> set [''c''] \<inter> set (computeActivePathNodes (Some ''t'') (nodes scenarioE) (edges scenarioE))
       = {}"
proof -
  have h3: "\<forall>i\<in>set (''b'' # [''r''] @ [''c''] @ [''t'']).
              \<exists>nd. find (\<lambda>n. node_id n = i) (nodes scenarioE) = Some nd
                \<and> (block_type (data nd) = BaseUrl) = (i = ''b'')"
    by (simp add: scenarioE_def mkBlock_def)
  have h4: "singleParents (edges scenarioE) ''b'' [''r'']"
    by (simp add: scenarioE_def)
  have h5: "singleParents (edges scenarioE) ''t'' [''c'']"
    by (simp add: scenarioE_def)
  have h6: "map source (filter (\<lambda>e. target e = ''t'') (edges scenarioE))
              = [last (''t'' # [''c'']), last (''b'' # [''r''])]
            \<or> map source (filter (\<lambda>e. target e = ''t'') (edges scenarioE))
              = [last (''b'' # [''r'']), last (''t'' # [''c''])]"
    by (simp add: scenarioE_def)
  show ?thesis
    using valid_branch_chosen_over_cycle[of "''t''" "''b''" "[''r'']" "[''c'']"
            "nodes scenarioE" "edges scenarioE", OF _ _ h3 h4 h5 h6]
    by simp
qed

end
